theory Spec2Isabelle
  imports Complex_Main "HOL-Library.Word"
begin

unbundle bit_operations_syntax

section \<open>Configuration constants\<close>

text \<open>
  The constants of the sonar servers (the 1800-sample variants: the two servers of
  \<^verbatim>\<open>src/unnamed/part_000\<close>, \<^verbatim>\<open>sonar_gps_data_logger_throttled_writes.js\<close>,
  \<^verbatim>\<open>server-gps-d3-serial.js\<close> and \<^verbatim>\<open>debugging/console_1800.js\<close>). A serial byte is an
  8-bit word. A sample is an unsigned 16-bit reading, kept as a natural number. JavaScript
  numbers that carry distances and averages are modelled as real numbers: the arithmetic
  of the model is exact where the program rounds to IEEE doubles.
\<close>

type_synonym byte = "8 word"

definition NUM_SAMPLES :: nat where
  "NUM_SAMPLES = 1800"

definition PACKET_SIZE :: nat where
  "PACKET_SIZE = 1 + 6 + 2 * NUM_SAMPLES + 1"

definition NOISE_FLOOR_RANGE :: nat where
  "NOISE_FLOOR_RANGE = 100"

definition SAMPLE_RESOLUTION :: real where
  "SAMPLE_RESOLUTION = 0.2178"

definition EMA_ALPHA :: real where
  "EMA_ALPHA = 0.1"

section \<open>Echo extraction\<close>

text \<open>
  \<^verbatim>\<open>calculateNoiseFloor\<close>: \<^verbatim>\<open>start = samples.length - NOISE_FLOOR_RANGE\<close> may be
  negative, so it is an integer; \<^verbatim>\<open>reduce\<close> is a left fold from 0.
\<close>

definition calculateNoiseFloor :: "nat list \<Rightarrow> real" where
  "calculateNoiseFloor samples =
     (let start = int (length samples) - int NOISE_FLOOR_RANGE in
      if start < 0 then 0
      else
        let tailSamples = drop (nat start) samples;
            sum = foldl (\<lambda>acc val. acc + val) 0 tailSamples
        in real sum / real NOISE_FLOOR_RANGE)"

text \<open>
  \<^verbatim>\<open>findBlindZoneEnd\<close>: the first index below \<^verbatim>\<open>Math.min(samples.length, 500)\<close>
  whose sample is at most \<^verbatim>\<open>noiseFloor * 1.2\<close>, and 150 when there is none.
\<close>

definition findBlindZoneEnd :: "nat list \<Rightarrow> real \<Rightarrow> nat" where
  "findBlindZoneEnd samples noiseFloor =
     (let searchLimit = 500;
          threshold = noiseFloor * 1.2
      in case find (\<lambda>i. real (samples ! i) \<le> threshold)
                [0..<min (length samples) searchLimit] of
           Some i \<Rightarrow> i
         | None \<Rightarrow> 150)"

record reflection =
  r_value :: nat
  r_index :: int
  r_distance :: real
  r_blindZoneEndIndex :: nat

text \<open>
  The body of the peak search loop of \<^verbatim>\<open>findPrimaryReflection\<close>, on the pair
  \<^verbatim>\<open>(maxValue, maxIndex)\<close>.
\<close>

definition scanStep :: "nat list \<Rightarrow> nat \<Rightarrow> nat \<times> int \<Rightarrow> nat \<times> int" where
  "scanStep samples i acc =
     (case acc of (maxValue, maxIndex) \<Rightarrow>
        if samples ! i > maxValue then (samples ! i, int i) else (maxValue, maxIndex))"

definition findPrimaryReflection :: "nat list \<Rightarrow> reflection" where
  "findPrimaryReflection samples =
     (if length samples = 0 then
        \<lparr>r_value = 0, r_index = - 1, r_distance = 0, r_blindZoneEndIndex = 0\<rparr>
      else
        let noiseFloor = calculateNoiseFloor samples;
            startIndex = findBlindZoneEnd samples noiseFloor;
            (maxValue, maxIndex) =
              fold (scanStep samples) [startIndex..<length samples] (0, - 1);
            rawDistanceCm = real_of_int maxIndex * SAMPLE_RESOLUTION
        in \<lparr>r_value = maxValue, r_index = maxIndex, r_distance = rawDistanceCm,
            r_blindZoneEndIndex = startIndex\<rparr>)"

section \<open>Distance smoothing\<close>

text \<open>
  \<^verbatim>\<open>applyExponentialSmoothing\<close> reads and writes the global
  \<^verbatim>\<open>lastSmoothedDistance\<close> (\<^verbatim>\<open>null\<close> at start): the state is passed in and the
  pair of the returned value and the new state is returned.
\<close>

definition applyExponentialSmoothing :: "real option \<Rightarrow> real \<Rightarrow> real \<times> real option" where
  "applyExponentialSmoothing lastSmoothedDistance currentDistance =
     (case lastSmoothedDistance of
        None \<Rightarrow> (currentDistance, Some currentDistance)
      | Some previous \<Rightarrow>
          let smoothedDistance =
                EMA_ALPHA * currentDistance + (1 - EMA_ALPHA) * previous
          in (smoothedDistance, Some smoothedDistance))"

text \<open>
  The smoother called again and again with one raw value: \<^verbatim>\<open>smoothConstant s v n\<close> is
  the result (returned value and new state) of the last of \<^verbatim>\<open>n + 1\<close> successive calls
  \<^verbatim>\<open>applyExponentialSmoothing(v)\<close> that start in state \<^verbatim>\<open>s\<close>.
\<close>

primrec smoothConstant :: "real option \<Rightarrow> real \<Rightarrow> nat \<Rightarrow> real \<times> real option" where
  "smoothConstant s v 0 = applyExponentialSmoothing s v"
| "smoothConstant s v (Suc n) = applyExponentialSmoothing (snd (smoothConstant s v n)) v"

section \<open>Per-frame processing\<close>

text \<open>
  \<^verbatim>\<open>processDataPacket\<close> of \<^verbatim>\<open>sonar_gps_data_logger_throttled_writes.js\<close>, up to
  the quality check: the reflection is found, its raw distance is smoothed, and only then
  is the peak value compared with 50. \<^verbatim>\<open>Skipped\<close> is the early return of a weak
  frame; \<^verbatim>\<open>Passed\<close> hands the reflection and the smoothed distance to the throttled
  database write, which depends on the clock, the GPS fix and the database and is not
  modelled. The frame step of \<^verbatim>\<open>server-gps-d3-serial.js\<close> and of
  \<^verbatim>\<open>sonarPacketHandler\<close> in \<^verbatim>\<open>src/unnamed/part_000\<close> call the two functions in
  the same order before their own check against 50.
\<close>

datatype outcome = Skipped | Passed reflection real

definition processDataPacket :: "real option \<Rightarrow> nat list \<Rightarrow> outcome \<times> real option" where
  "processDataPacket lastSmoothedDistance rawSamples =
     (let reflection = findPrimaryReflection rawSamples;
          (smoothedDistance, lastSmoothedDistance') =
            applyExponentialSmoothing lastSmoothedDistance (r_distance reflection)
      in if r_value reflection < 50 then (Skipped, lastSmoothedDistance')
         else (Passed reflection smoothedDistance, lastSmoothedDistance'))"

section \<open>Consistency tracker\<close>

text \<open>
  The class \<^verbatim>\<open>SignalTracker\<close> of \<^verbatim>\<open>debugging/console_1800.js\<close>. The object's fields
  are a record; \<^verbatim>\<open>buffer\<close> is the history of peak index lists, oldest first. A method
  that mutates the object returns the new object.
\<close>

record SignalTracker =
  t_buffer :: "nat list list"
  t_bufferSize :: nat
  t_threshold :: nat
  t_tolerance :: nat
  t_consistentIndices :: "nat set"

definition newSignalTracker :: "nat \<Rightarrow> nat \<Rightarrow> nat \<Rightarrow> SignalTracker" where
  "newSignalTracker bufferSize threshold tolerance =
     \<lparr>t_buffer = [], t_bufferSize = bufferSize, t_threshold = threshold,
      t_tolerance = tolerance, t_consistentIndices = {}\<rparr>"

datatype js_error = TypeError

text \<open>Step 1 of \<^verbatim>\<open>updateAndGetConsistentIndices\<close>: the indices at or above the threshold.\<close>

definition currentPeakIndices :: "nat \<Rightarrow> nat list \<Rightarrow> nat list" where
  "currentPeakIndices threshold currentValues =
     filter (\<lambda>i. currentValues ! i \<ge> threshold) [0..<length currentValues]"

text \<open>
  The two inner loops of step 3: \<^verbatim>\<open>isMatch\<close> for one past list, and
  \<^verbatim>\<open>isConsistent\<close> over all lists of the buffer but the last. \<^verbatim>\<open>index - tolerance\<close>
  may be negative, so the window bounds are integers.
\<close>

definition isMatch :: "nat \<Rightarrow> nat \<Rightarrow> nat list \<Rightarrow> bool" where
  "isMatch tolerance index pastPeakIndices =
     (let minIdx = max 0 (int index - int tolerance);
          maxIdx = min (int NUM_SAMPLES - 1) (int index + int tolerance)
      in list_ex (\<lambda>pIdx. int pIdx \<ge> minIdx \<and> int pIdx \<le> maxIdx) pastPeakIndices)"

definition isConsistent :: "nat \<Rightarrow> nat list list \<Rightarrow> nat \<Rightarrow> bool" where
  "isConsistent tolerance buffer index =
     list_all (isMatch tolerance index) (butlast buffer)"

text \<open>
  \<^verbatim>\<open>updateAndGetConsistentIndices\<close>. With \<^verbatim>\<open>bufferSize\<close> 0 the buffer is empty after
  the shift, \<^verbatim>\<open>this.buffer[this.buffer.length - 1]\<close> is \<^verbatim>\<open>undefined\<close> and iterating
  over it throws a TypeError.
\<close>

definition updateAndGetConsistentIndices ::
    "SignalTracker \<Rightarrow> nat list \<Rightarrow> js_error + nat set \<times> SignalTracker" where
  "updateAndGetConsistentIndices this currentValues =
     (let pushed = t_buffer this @ [currentPeakIndices (t_threshold this) currentValues];
          buffer = (if length pushed > t_bufferSize this then tl pushed else pushed)
      in if length buffer < t_bufferSize this then
           Inr ({}, this\<lparr>t_buffer := buffer, t_consistentIndices := {}\<rparr>)
         else if buffer = [] then Inl TypeError
         else
           let consistent = set (filter (isConsistent (t_tolerance this) buffer) (last buffer))
           in Inr (consistent, this\<lparr>t_buffer := buffer, t_consistentIndices := consistent\<rparr>))"

section \<open>Frame decoding\<close>

text \<open>
  Node's \<^verbatim>\<open>Buffer\<close> is a list of bytes. \<^verbatim>\<open>indexOf\<close> gives the first position of a
  byte, \<^verbatim>\<open>None\<close> standing for -1. \<^verbatim>\<open>slice(a, b)\<close> and \<^verbatim>\<open>subarray(a, b)\<close> keep the
  bytes at the positions a .. b - 1 and are \<^verbatim>\<open>sliceBuffer\<close> here; \<^verbatim>\<open>slice(a)\<close> is
  \<^verbatim>\<open>drop a\<close>. The reads
  \<^verbatim>\<open>readUInt16BE\<close> and \<^verbatim>\<open>readInt16BE\<close> raise a RangeError when the two bytes are
  not inside the buffer; every call below reads inside a payload of 6 + 2 * NUM_SAMPLES
  bytes, at an offset of at most 4 + 2 * NUM_SAMPLES.
\<close>

definition HEADER_BYTE :: byte where
  "HEADER_BYTE = 0xAA"

fun indexOf :: "byte list \<Rightarrow> byte \<Rightarrow> nat option" where
  "indexOf [] v = None"
| "indexOf (x # xs) v = (if x = v then Some 0 else map_option Suc (indexOf xs v))"

definition sliceBuffer :: "byte list \<Rightarrow> nat \<Rightarrow> nat \<Rightarrow> byte list" where
  "sliceBuffer buf a b = take (b - a) (drop a buf)"

definition readUInt16BE :: "byte list \<Rightarrow> nat \<Rightarrow> nat" where
  "readUInt16BE buf offset = unat (buf ! offset) * 256 + unat (buf ! (offset + 1))"

definition readInt16BE :: "byte list \<Rightarrow> nat \<Rightarrow> int" where
  "readInt16BE buf offset =
     (let u = readUInt16BE buf offset in if u \<ge> 32768 then int u - 65536 else int u)"

text \<open>The checksum loop: \<^verbatim>\<open>calculatedChecksum ^= byte\<close> for every byte of the payload.\<close>

definition xorChecksum :: "byte list \<Rightarrow> byte" where
  "xorChecksum payload = fold (\<lambda>byte calculatedChecksum. calculatedChecksum XOR byte) payload 0"

text \<open>The sample loop: NUM_SAMPLES big-endian 16-bit reads at the offsets 0, 2, 4, ...\<close>

definition unpackSamples :: "byte list \<Rightarrow> nat list" where
  "unpackSamples samplesBuffer =
     map (\<lambda>i. readUInt16BE samplesBuffer (i * 2)) [0..<NUM_SAMPLES]"

text \<open>
  The \<^verbatim>\<open>data\<close> handlers of the servers share one loop over the accumulated buffer
  (\<^verbatim>\<open>while (buffer.length >= PACKET_SIZE)\<close>): they differ in what they do with each
  packet sliced from the front. \<^verbatim>\<open>packetLoop\<close> is that loop; \<^verbatim>\<open>process\<close> is the
  per-packet part, which takes the state it may update and the packet, and returns what
  it emits and the new state. The loop returns everything emitted, the final state and
  the buffer that is left. The warnings printed on discarded bytes are not modelled.
\<close>

function packetLoop ::
    "('s \<Rightarrow> byte list \<Rightarrow> 'e list \<times> 's) \<Rightarrow> 's \<Rightarrow> byte list \<Rightarrow> 'e list \<times> 's \<times> byte list" where
  "packetLoop process s buffer =
     (if length buffer \<ge> PACKET_SIZE then
        (case indexOf buffer HEADER_BYTE of
           None \<Rightarrow> ([], s, [])
         | Some headerIndex \<Rightarrow>
             let buffer1 = (if headerIndex > 0 then drop headerIndex buffer else buffer) in
             if headerIndex > 0 \<and> length buffer1 < PACKET_SIZE then ([], s, buffer1)
             else
               let packet = sliceBuffer buffer1 0 PACKET_SIZE;
                   (emitted, s1) = process s packet;
                   (emitted', s2, buffer2) = packetLoop process s1 (drop PACKET_SIZE buffer1)
               in (emitted @ emitted', s2, buffer2))
      else ([], s, buffer))"
  by pat_completeness auto
termination
proof (relation "measure (\<lambda>(process, s, buffer). length buffer)")
  show "wf (measure (\<lambda>(process, s, buffer). length buffer))"
    by simp
next
  fix process :: "'s \<Rightarrow> byte list \<Rightarrow> 'e list \<times> 's"
  fix s :: 's and buffer buffer1 packet :: "byte list" and headerIndex :: nat
  fix x :: "'e list \<times> 's" and emitted :: "'e list" and s1 :: 's
  assume "PACKET_SIZE \<le> length buffer"
    and b1: "buffer1 = (if 0 < headerIndex then drop headerIndex buffer else buffer)"
    and stop: "\<not> (0 < headerIndex \<and> length buffer1 < PACKET_SIZE)"
  then have "PACKET_SIZE \<le> length buffer1" by (cases "0 < headerIndex") auto
  moreover have "0 < PACKET_SIZE" by (simp add: PACKET_SIZE_def)
  moreover have "length buffer1 \<le> length buffer" by (simp add: b1)
  ultimately show "((process, s1, drop PACKET_SIZE buffer1), (process, s, buffer))
        \<in> measure (\<lambda>(process, s, buffer). length buffer)"
    by simp
qed

declare packetLoop.simps [simp del]

text \<open>
  The first server of \<^verbatim>\<open>src/unnamed/part_000\<close>: the body of its loop from the packet
  slice to the WebSocket send. The checksum is computed and a mismatch is printed as a
  warning; the \<^verbatim>\<open>try\<close> block follows in either case. \<^verbatim>\<open>Sent\<close> carries the raw
  fields of the object sent to the clients (depth, temperature and drive voltage are
  these fields scaled and formatted); \<^verbatim>\<open>UnpackCrash\<close> is the \<^verbatim>\<open>catch\<close> branch.
  The loop applies it to packets of exactly PACKET_SIZE bytes, for which every read is
  inside the payload.
\<close>

record frame =
  f_depthIndex :: nat
  f_tempScaled :: int
  f_vDrvScaled :: nat
  f_samples :: "nat list"

datatype event = ChecksumWarning byte byte | Sent frame | UnpackCrash

definition handlePacket :: "byte list \<Rightarrow> event list" where
  "handlePacket packet =
     (let payload = sliceBuffer packet 1 (PACKET_SIZE - 1);
          receivedChecksum = packet ! (PACKET_SIZE - 1);
          calculatedChecksum = xorChecksum payload;
          warning = (if calculatedChecksum \<noteq> receivedChecksum
                     then [ChecksumWarning receivedChecksum calculatedChecksum] else []);
          depthIndex = readUInt16BE payload 0;
          tempScaled = readInt16BE payload 2;
          vDrvScaled = readUInt16BE payload 4;
          samplesBuffer = drop 6 payload
      in if length samplesBuffer \<noteq> NUM_SAMPLES * 2 then warning @ [UnpackCrash]
         else warning @
           [Sent \<lparr>f_depthIndex = depthIndex, f_tempScaled = tempScaled,
                  f_vDrvScaled = vDrvScaled, f_samples = unpackSamples samplesBuffer\<rparr>])"

text \<open>
  The handler of \<^verbatim>\<open>port.on('data', ...)\<close>: the chunk is appended to the buffer and the
  loop runs. The result is what was emitted and the buffer kept for the next chunk.
\<close>

definition serverDataHandler :: "byte list \<Rightarrow> byte list \<Rightarrow> event list \<times> byte list" where
  "serverDataHandler buffer data =
     (case packetLoop (\<lambda>s packet. (handlePacket packet, s)) () (buffer @ data) of
        (emitted, s, buffer') \<Rightarrow> (emitted, buffer'))"

text \<open>
  A byte stream that arrives in chunks: the handler runs once per chunk, on the buffer the
  previous run left, and everything emitted is collected in order.
\<close>

fun feedChunks :: "byte list \<Rightarrow> byte list list \<Rightarrow> event list \<times> byte list" where
  "feedChunks buffer [] = ([], buffer)"
| "feedChunks buffer (data # chunks) =
     (case serverDataHandler buffer data of
        (emitted, buffer1) \<Rightarrow>
          (case feedChunks buffer1 chunks of
             (emitted', buffer2) \<Rightarrow> (emitted @ emitted', buffer2)))"

text \<open>
  Two buffers that differ only in bytes before their first header byte are decoded alike;
  \<^verbatim>\<open>stripJunk\<close> removes those bytes, to compare what the handler keeps.
\<close>

definition stripJunk :: "byte list \<Rightarrow> byte list" where
  "stripJunk buffer = dropWhile (\<lambda>b. b \<noteq> HEADER_BYTE) buffer"

text \<open>
  \<^verbatim>\<open>serialBufferHandler\<close> of \<^verbatim>\<open>sonar_gps_data_logger_throttled_writes.js\<close>: no
  checksum is computed; the samples of every packet go to \<^verbatim>\<open>processDataPacket\<close>. The
  state is the pair of the globals \<^verbatim>\<open>lastSmoothedDistance\<close> and \<^verbatim>\<open>comBuffer\<close>; what is
  emitted, per packet, is the sample array and the outcome of its processing.
\<close>

definition serialBufferHandler ::
    "real option \<times> byte list \<Rightarrow> byte list \<Rightarrow> (nat list \<times> outcome) list \<times> real option \<times> byte list" where
  "serialBufferHandler state data =
     (case state of (lastSmoothedDistance, comBuffer) \<Rightarrow>
        packetLoop
          (\<lambda>lastSmoothed packet.
             let payload = sliceBuffer packet 1 (PACKET_SIZE - 1);
                 samplesBuffer = drop 6 payload;
                 rawSamples = unpackSamples samplesBuffer;
                 (result, lastSmoothed') = processDataPacket lastSmoothed rawSamples
             in ([(rawSamples, result)], lastSmoothed'))
          lastSmoothedDistance (comBuffer @ data))"

text \<open>
  \<^verbatim>\<open>extractAndProcessPacket\<close> of \<^verbatim>\<open>debugging/console_1800.js\<close>, on the global
  \<^verbatim>\<open>buffer\<close>: it returns the packet (or \<^verbatim>\<open>null\<close>) and the new buffer. The header is
  searched only at the positions \<^verbatim>\<open>i <= buffer.length - PACKET_LEN\<close>. On a checksum
  mismatch the bytes up to and including the header are dropped and the function calls
  itself. The flag \<^verbatim>\<open>isReading\<close> is false at every entry of a sequential run and is not
  modelled. The packet returned carries the raw fields; the program scales and rounds
  them for printing.
\<close>

definition PAYLOAD_LEN :: nat where
  "PAYLOAD_LEN = 6 + 2 * NUM_SAMPLES"

definition PACKET_LEN :: nat where
  "PACKET_LEN = 1 + PAYLOAD_LEN + 1"

function extractAndProcessPacket :: "byte list \<Rightarrow> frame option \<times> byte list" where
  "extractAndProcessPacket buffer =
     (case indexOf (take (length buffer + 1 - PACKET_LEN) buffer) HEADER_BYTE of
        None \<Rightarrow> (None, buffer)
      | Some headerIndex \<Rightarrow>
          if length buffer < headerIndex + PACKET_LEN then (None, buffer)
          else
            let potentialPacket = sliceBuffer buffer headerIndex (headerIndex + PACKET_LEN);
                payload = sliceBuffer potentialPacket 1 (1 + PAYLOAD_LEN);
                receivedChecksum = potentialPacket ! (PACKET_LEN - 1);
                calculatedChecksum = xorChecksum payload
            in if calculatedChecksum \<noteq> receivedChecksum
               then extractAndProcessPacket (drop (headerIndex + 1) buffer)
               else
                 (Some \<lparr>f_depthIndex = readUInt16BE payload 0,
                        f_tempScaled = readInt16BE payload 2,
                        f_vDrvScaled = readUInt16BE payload 4,
                        f_samples = map (\<lambda>i. readUInt16BE payload (6 + i * 2)) [0..<NUM_SAMPLES]\<rparr>,
                  drop (headerIndex + PACKET_LEN) buffer))"
  by pat_completeness auto
termination
proof (relation "measure length")
  show "wf (measure length)" by simp
next
  fix buffer :: "byte list" and headerIndex :: nat
  assume "\<not> length buffer < headerIndex + PACKET_LEN"
  moreover have "0 < PACKET_LEN" by (simp add: PACKET_LEN_def)
  ultimately show "(drop (headerIndex + 1) buffer, buffer) \<in> measure length"
    by simp
qed

declare extractAndProcessPacket.simps [simp del]

section \<open>Noise floor\<close>

lemma foldl_add_sum_list: "foldl (\<lambda>acc val. acc + val) a xs = a + sum_list (xs :: nat list)"
  by (induction xs arbitrary: a) auto

lemma sum_list_drop_nth:
  "k \<le> length xs \<Longrightarrow> sum_list (drop k xs) = (\<Sum>i = k..<length xs. (xs :: nat list) ! i)"
proof -
  assume k: "k \<le> length xs"
  have "sum_list (drop k xs) = (\<Sum>i = 0..<length xs - k. xs ! (i + k))"
    by (simp add: sum_list_sum_nth add.commute)
  also have "\<dots> = (\<Sum>i = 0 + k..<(length xs - k) + k. xs ! i)"
    by (rule sum.shift_bounds_nat_ivl [symmetric])
  finally show ?thesis using k by simp
qed

lemma calculateNoiseFloor_sum:
  assumes "100 \<le> length samples"
  shows "calculateNoiseFloor samples =
          real (\<Sum>i = length samples - 100..<length samples. samples ! i) / 100"
proof -
  have "nat (int (length samples) - 100) = length samples - 100"
    by simp
  with assms show ?thesis
    by (simp add: calculateNoiseFloor_def NOISE_FLOOR_RANGE_def Let_def
        foldl_add_sum_list sum_list_drop_nth)
qed

lemma calculateNoiseFloor_zero_tail:
  assumes "100 \<le> length samples"
    and "\<And>i. length samples - 100 \<le> i \<Longrightarrow> i < length samples \<Longrightarrow> samples ! i = 0"
  shows "calculateNoiseFloor samples = 0"
proof -
  have "(\<Sum>i = length samples - 100..<length samples. samples ! i) = 0"
    using assms(2) by simp
  with calculateNoiseFloor_sum [OF assms(1)] show ?thesis by simp
qed

text \<open>
  C7. For a sample array of length N, the noise floor is the arithmetic mean of its last
  NOISE_FLOOR_RANGE = 100 samples (the sum of the samples at the indices N - 100 .. N - 1,
  divided by 100), and it is 0 whenever N is below 100.
\<close>

theorem calculateNoiseFloor_mean:
  "NOISE_FLOOR_RANGE = 100 \<and>
   (length samples < NOISE_FLOOR_RANGE \<longrightarrow> calculateNoiseFloor samples = 0) \<and>
   (NOISE_FLOOR_RANGE \<le> length samples \<longrightarrow>
      calculateNoiseFloor samples =
        real (\<Sum>i = length samples - NOISE_FLOOR_RANGE..<length samples. samples ! i) / 100)"
  using calculateNoiseFloor_sum [of samples]
  by (simp add: calculateNoiseFloor_def NOISE_FLOOR_RANGE_def Let_def)

text \<open>
  Witness for C7: 1800 samples whose last 100 are all 7 have noise floor 7, and 99 samples
  have noise floor 0.
\<close>

theorem calculateNoiseFloor_mean_witness:
  "calculateNoiseFloor (replicate 1700 0 @ replicate 100 7) = 7 \<and>
   calculateNoiseFloor (replicate 99 7) = 0"
proof -
  have s: "(\<Sum>i = 1700..<1800. (replicate 1700 0 @ replicate 100 (7::nat)) ! i) = (\<Sum>i = 1700..<1800::nat. 7)"
    by (rule sum.cong) (auto simp: nth_append)
  have "calculateNoiseFloor (replicate 1700 0 @ replicate 100 7) =
      real (\<Sum>i = 1700..<1800. (replicate 1700 0 @ replicate 100 (7::nat)) ! i) / 100"
    using calculateNoiseFloor_mean [of "replicate 1700 0 @ replicate 100 7"]
    by (simp add: NOISE_FLOOR_RANGE_def)
  moreover have "calculateNoiseFloor (replicate 99 7) = 0"
    using calculateNoiseFloor_mean [of "replicate 99 7"]
    by (simp add: NOISE_FLOOR_RANGE_def)
  ultimately show ?thesis
    by (simp only: s) simp
qed

section \<open>Blind zone and peak search\<close>

lemma find_upt_first:
  "i < n \<Longrightarrow> P i \<Longrightarrow> (\<And>j. j < i \<Longrightarrow> \<not> P j) \<Longrightarrow> find P [0..<n] = Some i"
  by (auto simp: find_Some_iff intro!: exI[of _ i])

lemma findBlindZoneEnd_first:
  assumes "i < length samples" "i < 500" "real (samples ! i) \<le> noiseFloor * 1.2"
    and "\<And>j. j < i \<Longrightarrow> \<not> real (samples ! j) \<le> noiseFloor * 1.2"
  shows "findBlindZoneEnd samples noiseFloor = i"
proof -
  have "find (\<lambda>i. real (samples ! i) \<le> noiseFloor * 1.2) [0..<min (length samples) 500] = Some i"
    by (rule find_upt_first) (use assms in auto)
  then show ?thesis by (simp add: findBlindZoneEnd_def)
qed

lemma scan_fold_invariant:
  "s \<le> n \<Longrightarrow> fold (scanStep xs) [s..<n] (0, - 1) = (mv, mi) \<Longrightarrow>
     (mi = - 1 \<and> mv = 0 \<and> (\<forall>i. s \<le> i \<and> i < n \<longrightarrow> xs ! i = 0)) \<or>
     (int s \<le> mi \<and> mi < int n \<and> xs ! nat mi = mv \<and> 0 < mv \<and>
      (\<forall>i. s \<le> i \<and> i < n \<longrightarrow> xs ! i \<le> mv) \<and>
      (\<forall>i. s \<le> i \<and> int i < mi \<longrightarrow> xs ! i < mv))"
proof (induction n arbitrary: mv mi)
  case 0
  then show ?case by simp
next
  case (Suc n)
  show ?case
  proof (cases "s = Suc n")
    case True
    with Suc.prems show ?thesis by auto
  next
    case False
    with Suc.prems have sn: "s \<le> n" by simp
    obtain mv0 mi0 where f: "fold (scanStep xs) [s..<n] (0, - 1) = (mv0, mi0)"
      by (cases "fold (scanStep xs) [s..<n] (0, - 1)")
    note IH = Suc.IH [OF sn f]
    from Suc.prems(2) sn f have step: "scanStep xs n (mv0, mi0) = (mv, mi)"
      by simp
    show ?thesis
    proof (cases "xs ! n > mv0")
      case True
      with step have eq: "mv = xs ! n" "mi = int n" by (simp_all add: scanStep_def)
      from IH True have "\<forall>i. s \<le> i \<and> i < n \<longrightarrow> xs ! i < xs ! n"
        by (auto simp: le_less_trans)
      with eq sn True show ?thesis
        by (auto simp: less_Suc_eq)
    next
      case False
      with step have eq: "mv = mv0" "mi = mi0" by (simp_all add: scanStep_def)
      from IH False eq show ?thesis
        by (auto simp: less_Suc_eq)
    qed
  qed
qed


lemma scan_fold_result:
  assumes "fold (scanStep xs) [s..<n] (0, - 1) = (mv, mi)"
  shows "if \<exists>i. s \<le> i \<and> i < n \<and> 0 < xs ! i
         then int s \<le> mi \<and> mi < int n \<and> mv = xs ! nat mi \<and>
              (\<forall>i. s \<le> i \<and> i < n \<longrightarrow> xs ! i \<le> mv) \<and>
              (\<forall>i. s \<le> i \<and> int i < mi \<longrightarrow> xs ! i < mv)
         else mv = 0 \<and> mi = - 1"
proof (cases "s \<le> n")
  case True
  from scan_fold_invariant [OF True assms] show ?thesis
  proof
    assume "mi = - 1 \<and> mv = 0 \<and> (\<forall>i. s \<le> i \<and> i < n \<longrightarrow> xs ! i = 0)"
    then show ?thesis by auto
  next
    assume a: "int s \<le> mi \<and> mi < int n \<and> xs ! nat mi = mv \<and> 0 < mv \<and>
      (\<forall>i. s \<le> i \<and> i < n \<longrightarrow> xs ! i \<le> mv) \<and>
      (\<forall>i. s \<le> i \<and> int i < mi \<longrightarrow> xs ! i < mv)"
    then have "s \<le> nat mi \<and> nat mi < n \<and> 0 < xs ! nat mi" by auto
    then have "\<exists>i. s \<le> i \<and> i < n \<and> 0 < xs ! i" by blast
    with a show ?thesis by simp
  qed
next
  case False
  with assms show ?thesis by auto
qed

lemma scan_fold_found:
  assumes "fold (scanStep xs) [s..<n] (0, - 1) = (mv, mi)" "s \<le> k" "k < n" "0 < xs ! k"
  shows "int s \<le> mi" "mi < int n" "mv = xs ! nat mi" "xs ! k \<le> mv"
proof -
  from assms(2-4) have "\<exists>i. s \<le> i \<and> i < n \<and> 0 < xs ! i" by blast
  with scan_fold_result [OF assms(1)]
  have *: "int s \<le> mi \<and> mi < int n \<and> mv = xs ! nat mi \<and>
              (\<forall>i. s \<le> i \<and> i < n \<longrightarrow> xs ! i \<le> mv)"
    by (simp only: if_True simp_thms) blast
  then show "int s \<le> mi" "mi < int n" "mv = xs ! nat mi" by blast+
  from * assms(2,3) show "xs ! k \<le> mv" by blast
qed

lemma findPrimaryReflection_fields:
  assumes "samples \<noteq> []"
  shows "r_blindZoneEndIndex (findPrimaryReflection samples) =
           findBlindZoneEnd samples (calculateNoiseFloor samples)"
    and "fold (scanStep samples)
           [findBlindZoneEnd samples (calculateNoiseFloor samples)..<length samples] (0, - 1) =
         (r_value (findPrimaryReflection samples), r_index (findPrimaryReflection samples))"
    and "r_distance (findPrimaryReflection samples) =
           real_of_int (r_index (findPrimaryReflection samples)) * SAMPLE_RESOLUTION"
  using assms by (simp_all add: findPrimaryReflection_def Let_def split: prod.splits)

lemma findPrimaryReflection_empty:
  "findPrimaryReflection [] =
     \<lparr>r_value = 0, r_index = - 1, r_distance = 0, r_blindZoneEndIndex = 0\<rparr>"
  by (simp add: findPrimaryReflection_def)

lemma findPrimaryReflection_single_peak:
  assumes "0 < k" "k + 100 < n" "0 < v"
  shows "findPrimaryReflection ((replicate n 0)[k := v]) =
     \<lparr>r_value = v, r_index = int k, r_distance = real k * SAMPLE_RESOLUTION,
      r_blindZoneEndIndex = 0\<rparr>"
proof -
  let ?xs = "(replicate n 0)[k := v]"
  have len: "length ?xs = n" by simp
  have ne: "?xs \<noteq> []" using assms by auto
  have nth: "?xs ! i = (if i = k then v else 0)" if "i < n" for i
    using that by (simp add: nth_list_update)
  have nf: "calculateNoiseFloor ?xs = 0"
    by (rule calculateNoiseFloor_zero_tail) (use assms in \<open>auto simp: nth_list_update\<close>)
  have bz: "findBlindZoneEnd ?xs 0 = 0"
    by (rule findBlindZoneEnd_first) (use assms in \<open>auto simp: nth_list_update\<close>)
  note f = findPrimaryReflection_fields [OF ne, unfolded nf bz len]
  let ?r = "findPrimaryReflection ?xs"
  have k: "0 \<le> k" "k < n" "0 < ?xs ! k"
    using assms nth [of k] by simp_all
  note res = scan_fold_found [OF f(2) k]
  from res have a: "0 \<le> r_index ?r" "r_index ?r < int n" "r_value ?r = ?xs ! nat (r_index ?r)"
    by simp_all
  from res(4) assms nth [of k] have "v \<le> r_value ?r" by auto
  moreover from a have "nat (r_index ?r) < n" by simp
  note nth [OF this]
  ultimately have "nat (r_index ?r) = k" "r_value ?r = v"
    using a(3) assms(3) by (auto split: if_splits)
  with a f show ?thesis by (cases ?r) auto
qed

lemma findPrimaryReflection_no_peak:
  assumes "samples \<noteq> []"
    and "\<And>i. findBlindZoneEnd samples (calculateNoiseFloor samples) \<le> i \<Longrightarrow>
            i < length samples \<Longrightarrow> samples ! i = 0"
  shows "findPrimaryReflection samples =
     \<lparr>r_value = 0, r_index = - 1, r_distance = - SAMPLE_RESOLUTION,
      r_blindZoneEndIndex = findBlindZoneEnd samples (calculateNoiseFloor samples)\<rparr>"
proof -
  note f = findPrimaryReflection_fields [OF assms(1)]
  have "\<not> (\<exists>i. findBlindZoneEnd samples (calculateNoiseFloor samples) \<le> i \<and>
                 i < length samples \<and> 0 < samples ! i)"
    using assms(2) by auto
  with scan_fold_result [OF f(2)]
  have "r_value (findPrimaryReflection samples) = 0" "r_index (findPrimaryReflection samples) = - 1"
    by simp_all
  with f show ?thesis by (cases "findPrimaryReflection samples") auto
qed

lemma findPrimaryReflection_all_zero:
  "0 < n \<Longrightarrow> r_value (findPrimaryReflection (replicate n 0)) = 0 \<and>
     r_index (findPrimaryReflection (replicate n 0)) = - 1 \<and>
     r_distance (findPrimaryReflection (replicate n 0)) = - SAMPLE_RESOLUTION"
  using findPrimaryReflection_no_peak [of "replicate n 0"] by simp

lemma findPrimaryReflection_silent_after_ringdown:
  "findPrimaryReflection (5 # replicate 1799 0) =
     \<lparr>r_value = 0, r_index = - 1, r_distance = - SAMPLE_RESOLUTION, r_blindZoneEndIndex = 1\<rparr>"
proof -
  let ?xs = "5 # replicate 1799 (0::nat)"
  have nf: "calculateNoiseFloor ?xs = 0"
    by (rule calculateNoiseFloor_zero_tail) (auto simp: nth_Cons')
  have bz: "findBlindZoneEnd ?xs 0 = 1"
    by (rule findBlindZoneEnd_first) (auto simp: nth_Cons')
  show ?thesis
    using findPrimaryReflection_no_peak [of ?xs] by (simp add: nf bz nth_Cons')
qed

text \<open>
  C5 (as amended). Let s be the blind zone end that \<^verbatim>\<open>findPrimaryReflection\<close> reports
  and N the number of samples. For a non-empty array s is what \<^verbatim>\<open>findBlindZoneEnd\<close>
  returns for the computed noise floor. If some sample in [s, N) is greater than 0, the
  result's value is the maximum of the samples in [s, N) and its index is the lowest index
  in [s, N) that attains it (every earlier sample of the range is strictly smaller).
  Otherwise, that is whenever no sample in [s, N) is greater than 0, the result is value 0
  and index -1; this covers the all-zero array and every case with s \<ge> N.
\<close>

theorem findPrimaryReflection_peak:
  "let r = findPrimaryReflection samples;
       s = r_blindZoneEndIndex r;
       N = length samples
   in (samples \<noteq> [] \<longrightarrow> s = findBlindZoneEnd samples (calculateNoiseFloor samples)) \<and>
      (if \<exists>i. s \<le> i \<and> i < N \<and> 0 < samples ! i
       then int s \<le> r_index r \<and> r_index r < int N \<and>
            r_value r = samples ! nat (r_index r) \<and>
            (\<forall>i. s \<le> i \<and> i < N \<longrightarrow> samples ! i \<le> r_value r) \<and>
            (\<forall>i. s \<le> i \<and> int i < r_index r \<longrightarrow> samples ! i < r_value r)
       else r_value r = 0 \<and> r_index r = - 1) \<and>
      ((\<forall>i. i < N \<longrightarrow> samples ! i = 0) \<longrightarrow> r_value r = 0 \<and> r_index r = - 1) \<and>
      (N \<le> s \<longrightarrow> r_value r = 0 \<and> r_index r = - 1)"
proof (cases "samples = []")
  case True
  then show ?thesis by (simp add: findPrimaryReflection_empty)
next
  case False
  note f = findPrimaryReflection_fields [OF False]
  note res = scan_fold_result [OF f(2), folded f(1)]
  have main: "if \<exists>i. r_blindZoneEndIndex (findPrimaryReflection samples) \<le> i \<and>
                     i < length samples \<and> 0 < samples ! i
       then int (r_blindZoneEndIndex (findPrimaryReflection samples)) \<le> r_index (findPrimaryReflection samples) \<and>
            r_index (findPrimaryReflection samples) < int (length samples) \<and>
            r_value (findPrimaryReflection samples) = samples ! nat (r_index (findPrimaryReflection samples)) \<and>
            (\<forall>i. r_blindZoneEndIndex (findPrimaryReflection samples) \<le> i \<and> i < length samples \<longrightarrow>
                 samples ! i \<le> r_value (findPrimaryReflection samples)) \<and>
            (\<forall>i. r_blindZoneEndIndex (findPrimaryReflection samples) \<le> i \<and>
                 int i < r_index (findPrimaryReflection samples) \<longrightarrow>
                 samples ! i < r_value (findPrimaryReflection samples))
       else r_value (findPrimaryReflection samples) = 0 \<and> r_index (findPrimaryReflection samples) = - 1"
    using res .
  have z: "r_value (findPrimaryReflection samples) = 0 \<and> r_index (findPrimaryReflection samples) = - 1"
    if "\<not> (\<exists>i. r_blindZoneEndIndex (findPrimaryReflection samples) \<le> i \<and>
                     i < length samples \<and> 0 < samples ! i)"
    using main that by simp
  have z1: "r_value (findPrimaryReflection samples) = 0 \<and> r_index (findPrimaryReflection samples) = - 1"
    if "\<forall>i. i < length samples \<longrightarrow> samples ! i = 0"
    by (rule z) (use that in auto)
  have z2: "r_value (findPrimaryReflection samples) = 0 \<and> r_index (findPrimaryReflection samples) = - 1"
    if "length samples \<le> r_blindZoneEndIndex (findPrimaryReflection samples)"
    by (rule z) (use that in auto)
  show ?thesis
    unfolding Let_def using f(1) main z1 z2 by blast
qed

text \<open>
  Counterexample to C5 as stated: 1800 samples, the first one 5 and all others 0. The
  array is not all zero and the blind zone ends at index 1, below N = 1800. The maximum of
  the samples in [1, 1800) is 0 and index 1 is the lowest index that attains it, but the
  index returned is -1.
\<close>

theorem findPrimaryReflection_peak_counterexample:
  "r_blindZoneEndIndex (findPrimaryReflection (5 # replicate 1799 0)) = 1 \<and>
   1 < length (5 # replicate 1799 (0::nat)) \<and>
   (5 # replicate 1799 0) ! 0 \<noteq> (0::nat) \<and>
   r_value (findPrimaryReflection (5 # replicate 1799 0)) = 0 \<and>
   (5 # replicate 1799 0) ! 1 = r_value (findPrimaryReflection (5 # replicate 1799 0)) \<and>
   r_index (findPrimaryReflection (5 # replicate 1799 0)) = - 1 \<and>
   r_index (findPrimaryReflection (5 # replicate 1799 0)) \<noteq> 1"
  by (simp add: findPrimaryReflection_silent_after_ringdown)

text \<open>
  Witness for C5: 1800 samples, all 0 but sample 500, which is 200. The blind zone ends at
  index 0 and the peak found is value 200 at index 500.
\<close>

theorem findPrimaryReflection_peak_witness:
  "r_blindZoneEndIndex (findPrimaryReflection ((replicate 1800 0)[500 := 200])) = 0 \<and>
   r_index (findPrimaryReflection ((replicate 1800 0)[500 := 200])) = 500 \<and>
   r_value (findPrimaryReflection ((replicate 1800 0)[500 := 200])) = 200"
proof -
  let ?xs = "(replicate 1800 0)[500 := 200::nat]"
  let ?r = "findPrimaryReflection ?xs"
  have nf: "calculateNoiseFloor ?xs = 0"
    by (rule calculateNoiseFloor_zero_tail) auto
  have bz: "findBlindZoneEnd ?xs 0 = 0"
    by (rule findBlindZoneEnd_first) auto
  have ne: "?xs \<noteq> []" by simp
  have len: "length ?xs = 1800" by simp
  have nth: "?xs ! i = (if i = 500 then 200 else 0)" if "i < 1800" for i
    using that by (simp add: nth_list_update)
  note th = findPrimaryReflection_peak [of ?xs, unfolded Let_def]
  from th [THEN conjunct1] ne
  have s: "r_blindZoneEndIndex ?r = 0"
    by (simp only: nf bz simp_thms)
  have ex: "\<exists>i. r_blindZoneEndIndex ?r \<le> i \<and> i < length ?xs \<and> 0 < ?xs ! i"
    unfolding s len by (intro exI [of _ 500]) (simp add: nth)
  note th2 = th [THEN conjunct2, THEN conjunct1, unfolded if_P [OF ex]]
  from th2 have i0: "0 \<le> r_index ?r" unfolding s by simp
  from th2 have i1: "r_index ?r < 1800" unfolding len by simp
  from th2 have v: "r_value ?r = ?xs ! nat (r_index ?r)" by blast
  from th2 have "\<forall>i. r_blindZoneEndIndex ?r \<le> i \<and> i < length ?xs \<longrightarrow> ?xs ! i \<le> r_value ?r"
    by blast
  then have "r_blindZoneEndIndex ?r \<le> 500 \<and> 500 < length ?xs \<longrightarrow> ?xs ! 500 \<le> r_value ?r"
    by (rule spec)
  then have le: "200 \<le> r_value ?r" by (simp add: nth s)
  from i0 i1 have "nat (r_index ?r) < 1800" by simp
  from nth [OF this] v le have "nat (r_index ?r) = 500 \<and> r_value ?r = 200"
    by (simp split: if_splits)
  with i0 s show ?thesis by linarith
qed

section \<open>Frames without an echo\<close>

lemma processDataPacket_unfold:
  "processDataPacket prev samples =
     (if r_value (findPrimaryReflection samples) < 50 then Skipped
      else Passed (findPrimaryReflection samples)
             (fst (applyExponentialSmoothing prev (r_distance (findPrimaryReflection samples)))),
      snd (applyExponentialSmoothing prev (r_distance (findPrimaryReflection samples))))"
  by (simp add: processDataPacket_def Let_def split: prod.splits)

lemma applyExponentialSmoothing_state:
  "snd (applyExponentialSmoothing prev x) = Some (fst (applyExponentialSmoothing prev x))"
  by (simp add: applyExponentialSmoothing_def Let_def split: option.splits)

text \<open>
  C10. For every non-empty sample array in which no sample from the blind zone end to the
  end of the array is greater than 0, \<^verbatim>\<open>findPrimaryReflection\<close> returns index -1 and
  the distance -1 * SAMPLE_RESOLUTION = -0.2178 cm, which is not 0; and
  \<^verbatim>\<open>processDataPacket\<close> passes this negative distance to
  \<^verbatim>\<open>applyExponentialSmoothing\<close>: the smoothing state after the frame is the state
  that call leaves.
\<close>

theorem findPrimaryReflection_no_echo:
  assumes "samples \<noteq> []"
    and "\<forall>i. findBlindZoneEnd samples (calculateNoiseFloor samples) \<le> i \<and> i < length samples
            \<longrightarrow> \<not> 0 < samples ! i"
  shows "r_index (findPrimaryReflection samples) = - 1 \<and>
         r_distance (findPrimaryReflection samples) = - 1 * SAMPLE_RESOLUTION \<and>
         r_distance (findPrimaryReflection samples) = - 0.2178 \<and>
         r_distance (findPrimaryReflection samples) \<noteq> 0 \<and>
         snd (processDataPacket prev samples) =
           snd (applyExponentialSmoothing prev (- 0.2178)) \<and>
         snd (processDataPacket prev samples) =
           (case prev of None \<Rightarrow> Some (- 0.2178)
            | Some previous \<Rightarrow> Some (EMA_ALPHA * (- 0.2178) + (1 - EMA_ALPHA) * previous))"
proof -
  from assms(2) have "samples ! i = 0"
    if "findBlindZoneEnd samples (calculateNoiseFloor samples) \<le> i" "i < length samples" for i
    using that by simp
  from findPrimaryReflection_no_peak [OF assms(1) this]
  have r: "r_index (findPrimaryReflection samples) = - 1"
    "r_distance (findPrimaryReflection samples) = - SAMPLE_RESOLUTION"
    by simp_all
  show ?thesis
    by (simp add: r processDataPacket_unfold)
      (simp add: SAMPLE_RESOLUTION_def applyExponentialSmoothing_def Let_def split: option.splits)
qed

text \<open>
  Witness for C10: 1800 samples of value 0, from the initial state and from the state 100.
\<close>

theorem findPrimaryReflection_no_echo_witness:
  "r_index (findPrimaryReflection (replicate 1800 0)) = - 1 \<and>
   r_distance (findPrimaryReflection (replicate 1800 0)) = - 0.2178 \<and>
   snd (processDataPacket None (replicate 1800 0)) = Some (- 0.2178) \<and>
   snd (processDataPacket (Some 100) (replicate 1800 0)) = Some 89.97822"
proof -
  have ne: "replicate 1800 (0::nat) \<noteq> []" by simp
  have z: "\<forall>i. findBlindZoneEnd (replicate 1800 0) (calculateNoiseFloor (replicate 1800 0)) \<le> i \<and>
             i < length (replicate 1800 (0::nat)) \<longrightarrow> \<not> 0 < replicate 1800 (0::nat) ! i"
    by simp
  note a = findPrimaryReflection_no_echo [OF ne z, of None]
  note b = findPrimaryReflection_no_echo [OF ne z, of "Some 100"]
  from a have 1: "r_index (findPrimaryReflection (replicate 1800 0)) = - 1" by blast
  from a have 2: "r_distance (findPrimaryReflection (replicate 1800 0)) = - 0.2178" by blast
  from a have "snd (processDataPacket None (replicate 1800 0)) =
      (case None of None \<Rightarrow> Some (- 0.2178)
       | Some previous \<Rightarrow> Some (EMA_ALPHA * (- 0.2178) + (1 - EMA_ALPHA) * previous))"
    by blast
  then have 3: "snd (processDataPacket None (replicate 1800 0)) = Some (- 0.2178)"
    by simp
  from b have "snd (processDataPacket (Some 100) (replicate 1800 0)) =
      (case Some 100 of None \<Rightarrow> Some (- 0.2178)
       | Some previous \<Rightarrow> Some (EMA_ALPHA * (- 0.2178) + (1 - EMA_ALPHA) * previous))"
    by blast
  then have 4: "snd (processDataPacket (Some 100) (replicate 1800 0)) = Some 89.97822"
    by (simp add: EMA_ALPHA_def)
  from 1 2 3 4 show ?thesis by blast
qed

section \<open>Smoothing\<close>

lemma smoothConstant_fresh: "smoothConstant None v n = (v, Some v)"
  by (induction n) (simp_all add: applyExponentialSmoothing_def EMA_ALPHA_def Let_def)

lemma smoothConstant_from:
  "smoothConstant (Some p) v n =
     (v + (1 - EMA_ALPHA) ^ Suc n * (p - v), Some (v + (1 - EMA_ALPHA) ^ Suc n * (p - v)))"
  by (induction n) (simp_all add: applyExponentialSmoothing_def Let_def algebra_simps)

lemma smoothConstant_converges: "(\<lambda>n. fst (smoothConstant s v n)) \<longlonglongrightarrow> v"
proof (cases s)
  case None
  then show ?thesis by (simp add: smoothConstant_fresh)
next
  case (Some p)
  have "(\<lambda>n. (1 - EMA_ALPHA) ^ n) \<longlonglongrightarrow> 0"
    by (rule LIMSEQ_realpow_zero) (simp_all add: EMA_ALPHA_def)
  then have "(\<lambda>n. (1 - EMA_ALPHA) ^ Suc n) \<longlonglongrightarrow> 0"
    by (rule LIMSEQ_Suc)
  then have "(\<lambda>n. v + (1 - EMA_ALPHA) ^ Suc n * (p - v)) \<longlonglongrightarrow> v + 0 * (p - v)"
    by (intro tendsto_add tendsto_mult tendsto_const)
  with Some show ?thesis by (simp add: smoothConstant_from)
qed

text \<open>
  C6. The first call of the smoother (state \<^verbatim>\<open>null\<close>) returns its input and stores
  it; every later call returns and stores EMA_ALPHA * raw + (1 - EMA_ALPHA) * previous,
  with EMA_ALPHA = 0.1 in (0, 1). Smoothing a constant value v again and again returns v
  at every call when the state starts empty; from a previous value p the distance to v
  after n + 1 calls is (1 - EMA_ALPHA)^(n + 1) * (p - v), and the returned values converge
  to v. The statement is about exact real arithmetic.
\<close>

theorem applyExponentialSmoothing_ema:
  "applyExponentialSmoothing None v = (v, Some v) \<and>
   applyExponentialSmoothing (Some p) x =
     (EMA_ALPHA * x + (1 - EMA_ALPHA) * p, Some (EMA_ALPHA * x + (1 - EMA_ALPHA) * p)) \<and>
   0 < EMA_ALPHA \<and> EMA_ALPHA < 1 \<and>
   smoothConstant None v n = (v, Some v) \<and>
   fst (smoothConstant (Some p) v n) - v = (1 - EMA_ALPHA) ^ Suc n * (p - v) \<and>
   (\<lambda>k. fst (smoothConstant s v k)) \<longlonglongrightarrow> v"
  by (simp add: smoothConstant_fresh smoothConstant_from smoothConstant_converges)
    (simp add: applyExponentialSmoothing_def Let_def EMA_ALPHA_def)

section \<open>Consistency window\<close>

lemma currentPeakIndices_bound:
  "j \<in> set (currentPeakIndices thr vs) \<Longrightarrow> j < length vs"
  by (auto simp: currentPeakIndices_def)

lemma isMatch_iff:
  assumes "\<forall>j\<in>set past. j < NUM_SAMPLES"
  shows "isMatch tol i past \<longleftrightarrow> (\<exists>j\<in>set past. \<bar>int i - int j\<bar> \<le> int tol)"
proof -
  have "(max 0 (int i - int tol) \<le> int j \<and> int j \<le> min (int NUM_SAMPLES - 1) (int i + int tol))
        \<longleftrightarrow> \<bar>int i - int j\<bar> \<le> int tol" if "j \<in> set past" for j
  proof -
    from assms that have "j < NUM_SAMPLES" by blast
    then show ?thesis by (auto simp: abs_le_iff)
  qed
  then show ?thesis
    by (auto simp: isMatch_def Let_def list_ex_iff)
qed

lemma isConsistent_iff:
  assumes "\<forall>ps\<in>set (butlast buf). \<forall>j\<in>set ps. j < NUM_SAMPLES"
  shows "isConsistent tol buf i \<longleftrightarrow>
           (\<forall>older\<in>set (butlast buf). \<exists>j\<in>set older. \<bar>int i - int j\<bar> \<le> int tol)"
  using assms by (simp add: isConsistent_def list_all_iff isMatch_iff)

lemma currentPeakIndices_single:
  assumes "k < n" "0 < thr" "thr \<le> v"
  shows "currentPeakIndices thr ((replicate n 0)[k := v]) = [k]"
proof -
  have "filter (\<lambda>i. thr \<le> (replicate n 0)[k := v] ! i) [0..<n] = filter (\<lambda>i. i = k) [0..<n]"
    by (rule filter_cong) (use assms in \<open>auto simp: nth_list_update\<close>)
  also have "\<dots> = [k]"
    using assms(1) by (induction n) auto
  finally show ?thesis by (simp add: currentPeakIndices_def)
qed


lemma butlast_tl_snoc: "xs \<noteq> [] \<Longrightarrow> butlast (tl (xs @ [x])) = tl xs"
  by (cases xs) simp_all

lemma last_tl_snoc: "xs \<noteq> [] \<Longrightarrow> last (tl (xs @ [x])) = x"
  by (cases xs) simp_all

text \<open>
  C8. Let K be the tracker's window size (at least 1) and let every index of the history
  be below NUM_SAMPLES, as it is for frames of at most NUM_SAMPLES values. An update
  pushes the current peak list and evicts the oldest list when the history exceeds K. It
  returns the empty set while the history then holds fewer than K lists. Once the history
  holds K lists it returns exactly the indices i of the most recent list such that every
  older list of the history has an index j with |i - j| \<le> tolerance. The returned set is
  also stored in the tracker, and the bound on the indices is kept. The witness is the
  example of peak lists [10], [12], [9] with tolerance 5 and window 3: the third update
  returns the set holding 9.
\<close>

theorem updateAndGetConsistentIndices_window:
  assumes "0 < t_bufferSize this"
    and "\<forall>ps\<in>set (t_buffer this). \<forall>j\<in>set ps. j < NUM_SAMPLES"
    and "length currentValues \<le> NUM_SAMPLES"
  shows "case updateAndGetConsistentIndices this currentValues of
           Inl e \<Rightarrow> False
         | Inr (result, this') \<Rightarrow>
             t_buffer this' =
               (if length (t_buffer this) + 1 > t_bufferSize this
                then tl (t_buffer this @ [currentPeakIndices (t_threshold this) currentValues])
                else t_buffer this @ [currentPeakIndices (t_threshold this) currentValues]) \<and>
             last (t_buffer this') = currentPeakIndices (t_threshold this) currentValues \<and>
             (length (t_buffer this') < t_bufferSize this \<longrightarrow> result = {}) \<and>
             (t_bufferSize this \<le> length (t_buffer this') \<longrightarrow>
                result = {i \<in> set (last (t_buffer this')).
                            \<forall>older\<in>set (butlast (t_buffer this')).
                              \<exists>j\<in>set older. \<bar>int i - int j\<bar> \<le> int (t_tolerance this)}) \<and>
             t_consistentIndices this' = result \<and>
             t_bufferSize this' = t_bufferSize this \<and>
             t_threshold this' = t_threshold this \<and>
             t_tolerance this' = t_tolerance this \<and>
             (\<forall>ps\<in>set (t_buffer this'). \<forall>j\<in>set ps. j < NUM_SAMPLES)"
proof -
  define peaks where "peaks = currentPeakIndices (t_threshold this) currentValues"
  define pushed where "pushed = t_buffer this @ [peaks]"
  define buf where "buf = (if length pushed > t_bufferSize this then tl pushed else pushed)"
  have peaks_bound: "\<forall>j\<in>set peaks. j < NUM_SAMPLES"
    using assms(3) currentPeakIndices_bound [of _ "t_threshold this" currentValues]
    unfolding peaks_def by fastforce
  have ne: "buf \<noteq> []"
  proof (cases "length pushed > t_bufferSize this")
    case True
    with assms(1) have "length pushed \<ge> 2" by simp
    then have "tl pushed \<noteq> []" by (cases pushed) auto
    with True show ?thesis by (simp add: buf_def)
  next
    case False
    then show ?thesis by (simp add: buf_def pushed_def)
  qed
  have lastb: "last buf = peaks"
  proof (cases "length pushed > t_bufferSize this")
    case True
    with assms(1) have "t_buffer this \<noteq> []" by (auto simp: pushed_def)
    with True show ?thesis by (simp add: buf_def pushed_def last_tl_snoc)
  next
    case False
    then show ?thesis by (simp add: buf_def pushed_def)
  qed
  have sub: "set buf \<subseteq> set pushed"
    by (cases pushed) (auto simp: buf_def)
  then have bound: "\<forall>ps\<in>set buf. \<forall>j\<in>set ps. j < NUM_SAMPLES"
    using assms(2) peaks_bound by (auto simp: pushed_def)
  have "set (butlast buf) \<subseteq> set buf"
    by (auto dest: in_set_butlastD)
  with bound have older: "\<forall>ps\<in>set (butlast buf). \<forall>j\<in>set ps. j < NUM_SAMPLES"
    by blast
  have res: "set (filter (isConsistent (t_tolerance this) buf) (last buf)) =
      {i \<in> set (last buf). \<forall>older\<in>set (butlast buf).
          \<exists>j\<in>set older. \<bar>int i - int j\<bar> \<le> int (t_tolerance this)}"
    by (simp add: isConsistent_iff [OF older])
  have upd: "updateAndGetConsistentIndices this currentValues =
     (if length buf < t_bufferSize this then
           Inr ({}, this\<lparr>t_buffer := buf, t_consistentIndices := {}\<rparr>)
      else Inr (set (filter (isConsistent (t_tolerance this) buf) (last buf)),
                this\<lparr>t_buffer := buf,
                  t_consistentIndices := set (filter (isConsistent (t_tolerance this) buf) (last buf))\<rparr>))"
    using ne unfolding buf_def pushed_def peaks_def
    by (simp add: updateAndGetConsistentIndices_def Let_def)
  have bufeq: "buf = (if length (t_buffer this) + 1 > t_bufferSize this
                then tl (t_buffer this @ [peaks]) else t_buffer this @ [peaks])"
    by (simp add: buf_def pushed_def)
  show ?thesis
  proof (cases "length buf < t_bufferSize this")
    case True
    with upd bufeq lastb bound show ?thesis
      by (simp add: peaks_def [symmetric])
  next
    case False
    with upd bufeq lastb bound res show ?thesis
      by (simp add: peaks_def [symmetric])
  qed
qed

text \<open>
  Witness for C8: a new tracker with window 3, threshold 60 and tolerance 5 is fed three
  frames of 1800 samples with a single peak of value 60, at index 10, 12 and 9.
\<close>

theorem updateAndGetConsistentIndices_window_witness:
  "updateAndGetConsistentIndices (newSignalTracker 3 60 5) ((replicate 1800 0)[10 := 60]) =
     Inr ({}, \<lparr>t_buffer = [[10]], t_bufferSize = 3, t_threshold = 60, t_tolerance = 5,
               t_consistentIndices = {}\<rparr>) \<and>
   updateAndGetConsistentIndices
     \<lparr>t_buffer = [[10]], t_bufferSize = 3, t_threshold = 60, t_tolerance = 5,
      t_consistentIndices = {}\<rparr> ((replicate 1800 0)[12 := 60]) =
     Inr ({}, \<lparr>t_buffer = [[10], [12]], t_bufferSize = 3, t_threshold = 60, t_tolerance = 5,
               t_consistentIndices = {}\<rparr>) \<and>
   (case updateAndGetConsistentIndices
      \<lparr>t_buffer = [[10], [12]], t_bufferSize = 3, t_threshold = 60, t_tolerance = 5,
       t_consistentIndices = {}\<rparr> ((replicate 1800 0)[9 := 60]) of
      Inl e \<Rightarrow> False
    | Inr (result, this') \<Rightarrow> result = {9} \<and> t_buffer this' = [[10], [12], [9]])"
proof -
  let ?t2 = "\<lparr>t_buffer = [[10], [12]], t_bufferSize = 3, t_threshold = 60, t_tolerance = 5,
       t_consistentIndices = {}\<rparr>"
  have p: "currentPeakIndices 60 ((replicate 1800 0)[k := 60]) = [k]" if "k < 1800" for k
    using that by (intro currentPeakIndices_single) simp_all
  have 1: "updateAndGetConsistentIndices (newSignalTracker 3 60 5) ((replicate 1800 0)[10 := 60]) =
     Inr ({}, \<lparr>t_buffer = [[10]], t_bufferSize = 3, t_threshold = 60, t_tolerance = 5,
               t_consistentIndices = {}\<rparr>)"
    by (simp add: updateAndGetConsistentIndices_def newSignalTracker_def p)
  have 2: "updateAndGetConsistentIndices
     \<lparr>t_buffer = [[10]], t_bufferSize = 3, t_threshold = 60, t_tolerance = 5,
      t_consistentIndices = {}\<rparr> ((replicate 1800 0)[12 := 60]) = Inr ({}, ?t2)"
    by (simp add: updateAndGetConsistentIndices_def p)
  have h1: "0 < t_bufferSize ?t2" by simp
  have h2: "\<forall>ps\<in>set (t_buffer ?t2). \<forall>j\<in>set ps. j < NUM_SAMPLES"
    by (simp add: NUM_SAMPLES_def)
  have h3: "length ((replicate 1800 0)[9 := 60::nat]) \<le> NUM_SAMPLES"
    by (simp add: NUM_SAMPLES_def)
  note th = updateAndGetConsistentIndices_window [OF h1 h2 h3]
  have 3: "case updateAndGetConsistentIndices ?t2 ((replicate 1800 0)[9 := 60]) of
      Inl e \<Rightarrow> False
    | Inr (result, this') \<Rightarrow> result = {9} \<and> t_buffer this' = [[10], [12], [9]]"
  proof (cases "updateAndGetConsistentIndices ?t2 ((replicate 1800 0)[9 := 60])")
    case (Inl e)
    with th show ?thesis by simp
  next
    case (Inr rt)
    obtain result this' where rt: "rt = (result, this')" by (cases rt)
    from th Inr rt have b: "t_buffer this' = [[10], [12], [9]]"
      by (simp add: p)
    from th Inr rt have
      "t_bufferSize ?t2 \<le> length (t_buffer this') \<longrightarrow>
         result = {i \<in> set (last (t_buffer this')).
                            \<forall>older\<in>set (butlast (t_buffer this')).
                              \<exists>j\<in>set older. \<bar>int i - int j\<bar> \<le> int (t_tolerance ?t2)}"
      by simp
    then have "result = {9}"
      unfolding b by auto
    with b Inr rt show ?thesis by simp
  qed
  from 1 2 3 show ?thesis by blast
qed

section \<open>The buffer after a chunk\<close>

lemma indexOf_None_iff: "indexOf xs v = None \<longleftrightarrow> v \<notin> set xs"
  by (induction xs) auto

lemma indexOf_Some_drop:
  "indexOf xs v = Some h \<Longrightarrow> h < length xs \<and> drop h xs = dropWhile (\<lambda>x. x \<noteq> v) xs"
  by (induction xs arbitrary: h) (auto split: if_splits)

lemma indexOf_Some_nth:
  "indexOf xs v = Some h \<Longrightarrow> xs ! h = v \<and> (\<forall>j<h. xs ! j \<noteq> v)"
proof (induction xs arbitrary: h)
  case Nil
  then show ?case by simp
next
  case (Cons x xs)
  show ?case
  proof (cases "x = v")
    case True
    with Cons.prems show ?thesis by simp
  next
    case False
    with Cons.prems obtain h' where h: "indexOf xs v = Some h'" "h = Suc h'"
      by auto
    from Cons.IH [OF h(1)] False h(2) show ?thesis
      by (auto simp: nth_Cons')
  qed
qed

lemma PACKET_SIZE_value: "PACKET_SIZE = 3608"
  by (simp add: PACKET_SIZE_def NUM_SAMPLES_def)

lemma packetLoop_short:
  "length buffer < PACKET_SIZE \<Longrightarrow> packetLoop process s buffer = ([], s, buffer)"
  by (simp add: packetLoop.simps)

lemma packetLoop_no_header:
  "PACKET_SIZE \<le> length buffer \<Longrightarrow> HEADER_BYTE \<notin> set buffer \<Longrightarrow>
     packetLoop process s buffer = ([], s, [])"
  by (simp add: packetLoop.simps [of process s buffer] indexOf_None_iff [THEN iffD2])

lemma packetLoop_partial:
  assumes "PACKET_SIZE \<le> length buffer" "indexOf buffer HEADER_BYTE = Some h"
    and "length (drop h buffer) < PACKET_SIZE"
  shows "packetLoop process s buffer = ([], s, drop h buffer)"
proof -
  from assms(1,3) have "0 < h" by (cases h) auto
  with assms show ?thesis
    by (simp add: packetLoop.simps [of process s buffer])
qed

lemma packetLoop_packet:
  assumes "PACKET_SIZE \<le> length buffer" "indexOf buffer HEADER_BYTE = Some h"
    and "PACKET_SIZE \<le> length (drop h buffer)"
  shows "packetLoop process s buffer =
     (case process s (take PACKET_SIZE (drop h buffer)) of
        (emitted, s1) \<Rightarrow>
          (case packetLoop process s1 (drop PACKET_SIZE (drop h buffer)) of
             (emitted', s2, buffer2) \<Rightarrow> (emitted @ emitted', s2, buffer2)))"
proof (cases "0 < h")
  case True
  with assms show ?thesis
    by (simp add: packetLoop.simps [of process s buffer] sliceBuffer_def)
next
  case False
  with assms show ?thesis
    by (simp add: packetLoop.simps [of process s buffer] sliceBuffer_def)
qed

lemma packetLoop_buffer_bound:
  "length (snd (snd (packetLoop process s buffer))) < PACKET_SIZE"
proof (induction "length buffer" arbitrary: buffer s rule: less_induct)
  case less
  show ?case
  proof (cases "PACKET_SIZE \<le> length buffer")
    case False
    then show ?thesis by (simp add: packetLoop_short)
  next
    case long: True
    show ?thesis
    proof (cases "indexOf buffer HEADER_BYTE")
      case None
      with long show ?thesis
        by (simp add: packetLoop_no_header indexOf_None_iff PACKET_SIZE_value)
    next
      case (Some h)
      show ?thesis
      proof (cases "PACKET_SIZE \<le> length (drop h buffer)")
        case False
        with long Some show ?thesis
          by (simp add: packetLoop_partial)
      next
        case True
        then have "length (drop PACKET_SIZE (drop h buffer)) < length buffer"
          by (simp add: PACKET_SIZE_value)
        note IH = less [OF this]
        obtain emitted s1 where p: "process s (take PACKET_SIZE (drop h buffer)) = (emitted, s1)"
          by (cases "process s (take PACKET_SIZE (drop h buffer))")
        obtain emitted' s2 buffer2 where
          r: "packetLoop process s1 (drop PACKET_SIZE (drop h buffer)) = (emitted', s2, buffer2)"
          by (cases "packetLoop process s1 (drop PACKET_SIZE (drop h buffer))")
        from IH [of s1] r have "length buffer2 < PACKET_SIZE" by simp
        with p r show ?thesis
          by (simp add: packetLoop_packet [OF long Some True])
      qed
    qed
  qed
qed


lemma serverDataHandler_loop:
  "serverDataHandler buffer data =
     (fst (packetLoop (\<lambda>s packet. (handlePacket packet, s)) () (buffer @ data)),
      snd (snd (packetLoop (\<lambda>s packet. (handlePacket packet, s)) () (buffer @ data))))"
  by (simp add: serverDataHandler_def split: prod.splits)

text \<open>
  C9. After every run of the data handler (of the first server of
  \<^verbatim>\<open>src/unnamed/part_000\<close> and of \<^verbatim>\<open>serialBufferHandler\<close>), whatever the buffer
  before and the chunk, the buffer kept holds strictly fewer than PACKET_SIZE bytes. When
  the buffer with the chunk appended has at least PACKET_SIZE bytes and no header byte
  0xAA among them, all of it is discarded: nothing is emitted and the buffer kept is empty.
\<close>

theorem dataHandler_buffer_drained:
  "length (snd (serverDataHandler buffer data)) < PACKET_SIZE \<and>
   length (snd (snd (serialBufferHandler (lastSmoothedDistance, buffer) data))) < PACKET_SIZE \<and>
   (PACKET_SIZE \<le> length (buffer @ data) \<and> HEADER_BYTE \<notin> set (buffer @ data) \<longrightarrow>
      serverDataHandler buffer data = ([], []) \<and>
      serialBufferHandler (lastSmoothedDistance, buffer) data = ([], lastSmoothedDistance, []))"
proof -
  have 1: "length (snd (serverDataHandler buffer data)) < PACKET_SIZE"
    unfolding serverDataHandler_loop snd_conv by (rule packetLoop_buffer_bound)
  have 2: "length (snd (snd (serialBufferHandler (lastSmoothedDistance, buffer) data))) < PACKET_SIZE"
    unfolding serialBufferHandler_def prod.case by (rule packetLoop_buffer_bound)
  have 3: "serverDataHandler buffer data = ([], []) \<and>
      serialBufferHandler (lastSmoothedDistance, buffer) data = ([], lastSmoothedDistance, [])"
    if "PACKET_SIZE \<le> length (buffer @ data)" "HEADER_BYTE \<notin> set (buffer @ data)"
    unfolding serialBufferHandler_def serverDataHandler_loop prod.case
    by (simp only: packetLoop_no_header [OF that] fst_conv snd_conv simp_thms)
  from 1 2 3 show ?thesis by blast
qed

text \<open>
  Witness for C9: 4000 bytes 0x55 arriving as 3000 and 1000 are discarded; and with a
  chunk of 1000 header bytes the buffer kept is below 3608 bytes.
\<close>

theorem dataHandler_buffer_drained_witness:
  "serverDataHandler (replicate 3000 0x55) (replicate 1000 0x55) = ([], []) \<and>
   serialBufferHandler (Some 100, replicate 3000 0x55) (replicate 1000 0x55) = ([], Some 100, []) \<and>
   length (snd (serverDataHandler (replicate 3000 0x55) (replicate 1000 0xAA))) < 3608"
proof -
  have a: "PACKET_SIZE \<le> length (replicate 3000 (0x55 :: byte) @ replicate 1000 0x55) \<and>
      HEADER_BYTE \<notin> set (replicate 3000 (0x55 :: byte) @ replicate 1000 0x55)"
    by (simp add: PACKET_SIZE_value HEADER_BYTE_def)
  from dataHandler_buffer_drained [of "replicate 3000 0x55" "replicate 1000 0x55" "Some 100"] a
  have "serverDataHandler (replicate 3000 0x55) (replicate 1000 0x55) = ([], []) \<and>
   serialBufferHandler (Some 100, replicate 3000 0x55) (replicate 1000 0x55) = ([], Some 100, [])"
    by blast
  moreover from dataHandler_buffer_drained [of "replicate 3000 0x55" "replicate 1000 0xAA" None]
  have "length (snd (serverDataHandler (replicate 3000 0x55) (replicate 1000 0xAA))) < 3608"
    unfolding PACKET_SIZE_value by blast
  ultimately show ?thesis by blast
qed

section \<open>Checksum handling\<close>

lemma xorChecksum_Cons_zeros: "xorChecksum (x # replicate n 0) = x"
proof -
  have "fold (\<lambda>byte c. c XOR byte) (replicate n (0 :: byte)) c = c" for c
    by (induction n) simp_all
  then show ?thesis by (simp add: xorChecksum_def)
qed

lemma xorChecksum_zeros: "xorChecksum (replicate n 0) = 0"
proof -
  have "fold (\<lambda>byte c. c XOR byte) (replicate n (0 :: byte)) c = c" for c
    by (induction n) simp_all
  then show ?thesis by (simp add: xorChecksum_def)
qed

lemma map_upt_const: "(\<And>i. i < n \<Longrightarrow> f i = c) \<Longrightarrow> map f [0..<n] = replicate n c"
  by (induction n) (simp_all add: replicate_append_same)

lemma unpackSamples_zeros:
  "2 * NUM_SAMPLES \<le> n \<Longrightarrow> unpackSamples (replicate n 0) = replicate NUM_SAMPLES 0"
  unfolding unpackSamples_def
  by (rule map_upt_const) (simp add: readUInt16BE_def)

lemma handlePacket_bad_checksum:
  "handlePacket (0xAA # replicate 3606 0 @ [0x01]) =
     [ChecksumWarning 1 0,
      Sent \<lparr>f_depthIndex = 0, f_tempScaled = 0, f_vDrvScaled = 0, f_samples = replicate 1800 0\<rparr>]"
proof -
  have p: "sliceBuffer (0xAA # replicate 3606 0 @ [0x01]) 1 (PACKET_SIZE - 1) = replicate 3606 0"
    by (simp add: sliceBuffer_def PACKET_SIZE_value)
  have c: "(0xAA # replicate 3606 0 @ [0x01 :: byte]) ! (PACKET_SIZE - 1) = 1"
    by (simp add: PACKET_SIZE_value nth_append)
  have u: "unpackSamples (replicate 3600 0) = replicate 1800 0"
    using unpackSamples_zeros [of 3600] by (simp add: NUM_SAMPLES_def)
  show ?thesis
    unfolding handlePacket_def p c Let_def
    by (simp add: xorChecksum_zeros readUInt16BE_def readInt16BE_def u NUM_SAMPLES_def)
qed


lemma PACKET_LEN_value: "PACKET_LEN = 3608" "PAYLOAD_LEN = 3606"
  by (simp_all add: PACKET_LEN_def PAYLOAD_LEN_def NUM_SAMPLES_def)

lemma handlePacket_shifted:
  "handlePacket (0xAA # 0xAA # replicate 3606 0) =
     [ChecksumWarning 0 0xAA,
      Sent \<lparr>f_depthIndex = 43520, f_tempScaled = 0, f_vDrvScaled = 0,
            f_samples = replicate 1800 0\<rparr>]"
proof -
  have p: "sliceBuffer (0xAA # 0xAA # replicate 3606 0) 1 (PACKET_SIZE - 1) = 0xAA # replicate 3605 0"
    by (simp add: sliceBuffer_def PACKET_SIZE_value)
  have c: "(0xAA # 0xAA # replicate 3606 (0 :: byte)) ! (PACKET_SIZE - 1) = 0"
    by (simp add: PACKET_SIZE_value)
  have u: "unpackSamples (replicate 3600 0) = replicate 1800 0"
    using unpackSamples_zeros [of 3600] by (simp add: NUM_SAMPLES_def)
  show ?thesis
    unfolding handlePacket_def p c Let_def
    by (simp add: xorChecksum_Cons_zeros readUInt16BE_def readInt16BE_def u NUM_SAMPLES_def)
qed

lemma handlePacket_zero_frame:
  "handlePacket (0xAA # replicate 3607 0) =
     [Sent \<lparr>f_depthIndex = 0, f_tempScaled = 0, f_vDrvScaled = 0, f_samples = replicate 1800 0\<rparr>]"
proof -
  have p: "sliceBuffer (0xAA # replicate 3607 0) 1 (PACKET_SIZE - 1) = replicate 3606 0"
    by (simp add: sliceBuffer_def PACKET_SIZE_value)
  have c: "(0xAA # replicate 3607 (0 :: byte)) ! (PACKET_SIZE - 1) = 0"
    by (simp add: PACKET_SIZE_value)
  have u: "unpackSamples (replicate 3600 0) = replicate 1800 0"
    using unpackSamples_zeros [of 3600] by (simp add: NUM_SAMPLES_def)
  show ?thesis
    unfolding handlePacket_def p c Let_def
    by (simp add: xorChecksum_zeros readUInt16BE_def readInt16BE_def u NUM_SAMPLES_def)
qed

lemma packetLoop_header_first:
  assumes "PACKET_SIZE \<le> length (HEADER_BYTE # rest)"
  shows "packetLoop process s (HEADER_BYTE # rest) =
     (case process s (take PACKET_SIZE (HEADER_BYTE # rest)) of
        (emitted, s1) \<Rightarrow>
          (case packetLoop process s1 (drop PACKET_SIZE (HEADER_BYTE # rest)) of
             (emitted', s2, buffer2) \<Rightarrow> (emitted @ emitted', s2, buffer2)))"
  using packetLoop_packet [of "HEADER_BYTE # rest" 0 process s] assms by simp

lemma serverDataHandler_header_first:
  assumes "PACKET_SIZE \<le> length (buffer @ data)" "buffer @ data = HEADER_BYTE # rest"
    and "length (drop PACKET_SIZE (buffer @ data)) < PACKET_SIZE"
  shows "serverDataHandler buffer data =
           (handlePacket (take PACKET_SIZE (buffer @ data)), drop PACKET_SIZE (buffer @ data))"
proof -
  from assms(1,2) have "PACKET_SIZE \<le> length (HEADER_BYTE # rest)" by simp
  from packetLoop_header_first [OF this, of "\<lambda>s packet. (handlePacket packet, s)" "()"]
    assms(3) [unfolded assms(2)]
  show ?thesis
    unfolding serverDataHandler_def assms(2)
    by (simp add: packetLoop_short)
qed

lemma serverDataHandler_bad_checksum:
  "serverDataHandler [] (0xAA # replicate 3606 0 @ [0x01]) =
     ([ChecksumWarning 1 0,
       Sent \<lparr>f_depthIndex = 0, f_tempScaled = 0, f_vDrvScaled = 0, f_samples = replicate 1800 0\<rparr>],
      [])"
  using serverDataHandler_header_first [of "[]" "0xAA # replicate 3606 0 @ [0x01]" "replicate 3606 0 @ [0x01]"]
  by (simp add: PACKET_SIZE_value HEADER_BYTE_def handlePacket_bad_checksum)

lemma serverDataHandler_shifted:
  "serverDataHandler [0xAA] (0xAA # replicate 3607 0) =
     ([ChecksumWarning 0 0xAA,
       Sent \<lparr>f_depthIndex = 43520, f_tempScaled = 0, f_vDrvScaled = 0,
             f_samples = replicate 1800 0\<rparr>],
      [0])"
  using serverDataHandler_header_first [of "[0xAA]" "0xAA # replicate 3607 0" "0xAA # replicate 3607 0"]
  by (simp add: PACKET_SIZE_value HEADER_BYTE_def handlePacket_shifted)

lemma serverDataHandler_zero_frame:
  "serverDataHandler [] (0xAA # replicate 3607 0) =
     ([Sent \<lparr>f_depthIndex = 0, f_tempScaled = 0, f_vDrvScaled = 0, f_samples = replicate 1800 0\<rparr>],
      [])"
  using serverDataHandler_header_first [of "[]" "0xAA # replicate 3607 0" "replicate 3607 0"]
  by (simp add: PACKET_SIZE_value HEADER_BYTE_def handlePacket_zero_frame)


lemma extractAndProcessPacket_no_header:
  "indexOf (take (length buffer + 1 - PACKET_LEN) buffer) HEADER_BYTE = None \<Longrightarrow>
     extractAndProcessPacket buffer = (None, buffer)"
  by (simp add: extractAndProcessPacket.simps [of buffer])

lemma extractAndProcessPacket_header:
  assumes "indexOf (take (length buffer + 1 - PACKET_LEN) buffer) HEADER_BYTE = Some h"
  shows "h + PACKET_LEN \<le> length buffer"
    and "extractAndProcessPacket buffer =
      (if xorChecksum (sliceBuffer buffer (h + 1) (h + 1 + PAYLOAD_LEN)) \<noteq> buffer ! (h + PACKET_LEN - 1)
       then extractAndProcessPacket (drop (h + 1) buffer)
       else
         (Some \<lparr>f_depthIndex = readUInt16BE (sliceBuffer buffer (h + 1) (h + 1 + PAYLOAD_LEN)) 0,
                f_tempScaled = readInt16BE (sliceBuffer buffer (h + 1) (h + 1 + PAYLOAD_LEN)) 2,
                f_vDrvScaled = readUInt16BE (sliceBuffer buffer (h + 1) (h + 1 + PAYLOAD_LEN)) 4,
                f_samples = map (\<lambda>i. readUInt16BE (sliceBuffer buffer (h + 1) (h + 1 + PAYLOAD_LEN)) (6 + i * 2))
                              [0..<NUM_SAMPLES]\<rparr>,
          drop (h + PACKET_LEN) buffer))"
proof -
  from indexOf_Some_drop [OF assms] have "h < length buffer + 1 - PACKET_LEN"
    by simp
  then show len: "h + PACKET_LEN \<le> length buffer" by simp
  have pl: "PACKET_LEN = PAYLOAD_LEN + 2" by (simp add: PACKET_LEN_def)
  have payload: "sliceBuffer (sliceBuffer buffer h (h + PACKET_LEN)) 1 (1 + PAYLOAD_LEN) =
      sliceBuffer buffer (h + 1) (h + 1 + PAYLOAD_LEN)"
    by (simp add: sliceBuffer_def pl take_drop min_def add.commute)
  have recv: "sliceBuffer buffer h (h + PACKET_LEN) ! (PACKET_LEN - 1) = buffer ! (h + PACKET_LEN - 1)"
    using len by (simp add: sliceBuffer_def pl)
  from len have nlt: "(length buffer < h + PACKET_LEN) = False" by simp
  show "extractAndProcessPacket buffer =
      (if xorChecksum (sliceBuffer buffer (h + 1) (h + 1 + PAYLOAD_LEN)) \<noteq> buffer ! (h + PACKET_LEN - 1)
       then extractAndProcessPacket (drop (h + 1) buffer)
       else
         (Some \<lparr>f_depthIndex = readUInt16BE (sliceBuffer buffer (h + 1) (h + 1 + PAYLOAD_LEN)) 0,
                f_tempScaled = readInt16BE (sliceBuffer buffer (h + 1) (h + 1 + PAYLOAD_LEN)) 2,
                f_vDrvScaled = readUInt16BE (sliceBuffer buffer (h + 1) (h + 1 + PAYLOAD_LEN)) 4,
                f_samples = map (\<lambda>i. readUInt16BE (sliceBuffer buffer (h + 1) (h + 1 + PAYLOAD_LEN)) (6 + i * 2))
                              [0..<NUM_SAMPLES]\<rparr>,
          drop (h + PACKET_LEN) buffer))"
    by (subst extractAndProcessPacket.simps)
      (simp only: assms option.case Let_def payload recv nlt if_False)
qed

lemma extractAndProcessPacket_checksum_ok:
  "extractAndProcessPacket buffer = (Some f, rest) \<Longrightarrow>
     \<exists>h. h + PACKET_LEN \<le> length buffer \<and> buffer ! h = HEADER_BYTE \<and>
         xorChecksum (sliceBuffer buffer (h + 1) (h + 1 + PAYLOAD_LEN)) = buffer ! (h + PACKET_LEN - 1) \<and>
         rest = drop (h + PACKET_LEN) buffer"
proof (induction "length buffer" arbitrary: buffer rule: less_induct)
  case less
  show ?case
  proof (cases "indexOf (take (length buffer + 1 - PACKET_LEN) buffer) HEADER_BYTE")
    case None
    with less.prems show ?thesis
      by (simp add: extractAndProcessPacket_no_header)
  next
    case (Some h)
    note len = extractAndProcessPacket_header(1) [OF Some]
    note unf = extractAndProcessPacket_header(2) [OF Some]
    from indexOf_Some_nth [OF Some] indexOf_Some_drop [OF Some]
    have hdr: "buffer ! h = HEADER_BYTE" by simp
    show ?thesis
    proof (cases "xorChecksum (sliceBuffer buffer (h + 1) (h + 1 + PAYLOAD_LEN)) = buffer ! (h + PACKET_LEN - 1)")
      case True
      with unf less.prems have "rest = drop (h + PACKET_LEN) buffer" by simp
      with len hdr True show ?thesis by blast
    next
      case False
      with unf less.prems have rec: "extractAndProcessPacket (drop (h + 1) buffer) = (Some f, rest)"
        by simp
      from len have shorter: "length (drop (h + 1) buffer) < length buffer"
        by (simp add: PACKET_LEN_def)
      from less.hyps [OF shorter rec] obtain h' where
        h': "h' + PACKET_LEN \<le> length (drop (h + 1) buffer)"
          "drop (h + 1) buffer ! h' = HEADER_BYTE"
          "xorChecksum (sliceBuffer (drop (h + 1) buffer) (h' + 1) (h' + 1 + PAYLOAD_LEN)) =
             drop (h + 1) buffer ! (h' + PACKET_LEN - 1)"
          "rest = drop (h' + PACKET_LEN) (drop (h + 1) buffer)"
        by blast
      have "(h + 1 + h') + PACKET_LEN \<le> length buffer"
        using h'(1) by (simp add: PACKET_LEN_def)
      moreover have "buffer ! (h + 1 + h') = HEADER_BYTE"
        using h'(1,2) by (simp add: PACKET_LEN_def)
      moreover have "xorChecksum (sliceBuffer buffer ((h + 1 + h') + 1) ((h + 1 + h') + 1 + PAYLOAD_LEN)) =
          buffer ! ((h + 1 + h') + PACKET_LEN - 1)"
        using h'(1,3) by (simp add: sliceBuffer_def PACKET_LEN_def add.commute add.left_commute)
      moreover have "rest = drop ((h + 1 + h') + PACKET_LEN) buffer"
        using h'(4) by (simp add: add.commute add.left_commute)
      ultimately show ?thesis by blast
    qed
  qed
qed


lemma extractAndProcessPacket_bad_checksum:
  "extractAndProcessPacket (0xAA # replicate 3606 0 @ [0x01]) = (None, replicate 3606 0 @ [0x01])"
proof -
  let ?bad = "0xAA # replicate 3606 0 @ [0x01 :: byte]"
  have i: "indexOf (take (length ?bad + 1 - PACKET_LEN) ?bad) HEADER_BYTE = Some 0"
    by (simp add: PACKET_LEN_value HEADER_BYTE_def)
  have p: "sliceBuffer ?bad (0 + 1) (0 + 1 + PAYLOAD_LEN) = replicate 3606 0"
    by (simp add: sliceBuffer_def PACKET_LEN_value)
  have c: "?bad ! (0 + PACKET_LEN - 1) = 1"
    by (simp add: PACKET_LEN_value nth_append)
  have "extractAndProcessPacket ?bad = extractAndProcessPacket (drop (0 + 1) ?bad)"
    unfolding extractAndProcessPacket_header(2) [OF i] p c
    by (simp add: xorChecksum_zeros)
  also have "\<dots> = (None, replicate 3606 0 @ [0x01])"
    by (simp add: extractAndProcessPacket_no_header PACKET_LEN_value)
  finally show ?thesis .
qed

lemma extractAndProcessPacket_zero_frame:
  "extractAndProcessPacket (0xAA # replicate 3607 0) =
     (Some \<lparr>f_depthIndex = 0, f_tempScaled = 0, f_vDrvScaled = 0, f_samples = replicate 1800 0\<rparr>, [])"
proof -
  let ?z = "0xAA # replicate 3607 (0 :: byte)"
  have i: "indexOf (take (length ?z + 1 - PACKET_LEN) ?z) HEADER_BYTE = Some 0"
    by (simp add: PACKET_LEN_value HEADER_BYTE_def)
  have p: "sliceBuffer ?z (0 + 1) (0 + 1 + PAYLOAD_LEN) = replicate 3606 0"
    by (simp add: sliceBuffer_def PACKET_LEN_value)
  have c: "?z ! (0 + PACKET_LEN - 1) = 0"
    by (simp add: PACKET_LEN_value)
  have m: "map (\<lambda>i. readUInt16BE (replicate 3606 0) (6 + i * 2)) [0..<NUM_SAMPLES] =
      replicate NUM_SAMPLES 0"
    by (rule map_upt_const) (simp add: readUInt16BE_def NUM_SAMPLES_def)
  show ?thesis
    unfolding extractAndProcessPacket_header(2) [OF i] p c m
    by (simp add: xorChecksum_zeros readUInt16BE_def readInt16BE_def NUM_SAMPLES_def
        PACKET_LEN_value)
qed

lemma extractAndProcessPacket_shifted:
  "extractAndProcessPacket (0xAA # 0xAA # replicate 3607 0) =
     (Some \<lparr>f_depthIndex = 0, f_tempScaled = 0, f_vDrvScaled = 0, f_samples = replicate 1800 0\<rparr>, [])"
proof -
  let ?sh = "0xAA # 0xAA # replicate 3607 (0 :: byte)"
  have i: "indexOf (take (length ?sh + 1 - PACKET_LEN) ?sh) HEADER_BYTE = Some 0"
    by (simp add: PACKET_LEN_value HEADER_BYTE_def)
  have p: "sliceBuffer ?sh (0 + 1) (0 + 1 + PAYLOAD_LEN) = 0xAA # replicate 3605 0"
    by (simp add: sliceBuffer_def PACKET_LEN_value)
  have c: "?sh ! (0 + PACKET_LEN - 1) = 0"
    by (simp add: PACKET_LEN_value)
  have "extractAndProcessPacket ?sh = extractAndProcessPacket (drop (0 + 1) ?sh)"
    unfolding extractAndProcessPacket_header(2) [OF i] p c
    by (simp add: xorChecksum_Cons_zeros)
  then show ?thesis
    by (simp add: extractAndProcessPacket_zero_frame)
qed

text \<open>
  Whatever its checksum byte, a packet of PACKET_SIZE bytes ends in a frame sent.
\<close>

lemma handlePacket_sends_any_packet:
  assumes "length packet = PACKET_SIZE"
  shows "\<exists>f. last (handlePacket packet) = Sent f"
proof -
  from assms have "length (drop 6 (sliceBuffer packet 1 (PACKET_SIZE - 1))) = NUM_SAMPLES * 2"
    by (simp add: sliceBuffer_def PACKET_SIZE_def)
  then show ?thesis
    by (simp add: handlePacket_def Let_def)
qed

text \<open>
  C2, at a failing input. The packet is the header 0xAA, 3606 zero bytes of payload and
  the checksum byte 0x01, while the XOR of the payload is 0. The first server of
  \<^verbatim>\<open>src/unnamed/part_000\<close> prints the mismatch and still sends the frame parsed from
  that packet; \<^verbatim>\<open>extractAndProcessPacket\<close> of \<^verbatim>\<open>console_1800.js\<close> returns no packet
  for the same bytes.
\<close>

theorem serverDataHandler_sends_corrupt_frame:
  "xorChecksum (sliceBuffer (0xAA # replicate 3606 0 @ [0x01]) 1 (PACKET_SIZE - 1)) \<noteq>
     (0xAA # replicate 3606 0 @ [0x01]) ! (PACKET_SIZE - 1) \<and>
   serverDataHandler [] (0xAA # replicate 3606 0 @ [0x01]) =
     ([ChecksumWarning 1 0,
       Sent \<lparr>f_depthIndex = 0, f_tempScaled = 0, f_vDrvScaled = 0, f_samples = replicate 1800 0\<rparr>],
      []) \<and>
   extractAndProcessPacket (0xAA # replicate 3606 0 @ [0x01]) = (None, replicate 3606 0 @ [0x01])"
proof -
  have "sliceBuffer (0xAA # replicate 3606 0 @ [0x01]) 1 (PACKET_SIZE - 1) = replicate 3606 0"
    by (simp add: sliceBuffer_def PACKET_SIZE_value)
  moreover have "(0xAA # replicate 3606 0 @ [0x01 :: byte]) ! (PACKET_SIZE - 1) = 1"
    by (simp add: PACKET_SIZE_value nth_append)
  ultimately show ?thesis
    by (simp add: xorChecksum_zeros serverDataHandler_bad_checksum
        extractAndProcessPacket_bad_checksum)
qed

text \<open>
  C3, at a failing input. The bytes are a stray header 0xAA followed by a valid all-zero
  frame (header, 3606 zero bytes, checksum 0). The candidate at offset 0 fails its
  checksum. The first server of \<^verbatim>\<open>src/unnamed/part_000\<close> removes the whole candidate
  (PACKET_SIZE bytes) and keeps one byte, instead of dropping the header byte alone;
  \<^verbatim>\<open>extractAndProcessPacket\<close> drops one byte, rescans and returns the valid frame.
\<close>

theorem serverDataHandler_mismatch_consumes_candidate:
  "xorChecksum (sliceBuffer (0xAA # 0xAA # replicate 3607 0) 1 (PACKET_SIZE - 1)) \<noteq>
     (0xAA # 0xAA # replicate 3607 0) ! (PACKET_SIZE - 1) \<and>
   snd (serverDataHandler [] (0xAA # 0xAA # replicate 3607 0)) = [0] \<and>
   snd (serverDataHandler [] (0xAA # 0xAA # replicate 3607 0)) =
     drop PACKET_SIZE (0xAA # 0xAA # replicate 3607 0) \<and>
   snd (serverDataHandler [] (0xAA # 0xAA # replicate 3607 0)) \<noteq>
     drop 1 (0xAA # 0xAA # replicate 3607 0) \<and>
   extractAndProcessPacket (0xAA # 0xAA # replicate 3607 0) =
     (Some \<lparr>f_depthIndex = 0, f_tempScaled = 0, f_vDrvScaled = 0, f_samples = replicate 1800 0\<rparr>, [])"
proof -
  have "sliceBuffer (0xAA # 0xAA # replicate 3607 0) 1 (PACKET_SIZE - 1) = 0xAA # replicate 3605 0"
    by (simp add: sliceBuffer_def PACKET_SIZE_value)
  moreover have "(0xAA # 0xAA # replicate 3607 (0 :: byte)) ! (PACKET_SIZE - 1) = 0"
    by (simp add: PACKET_SIZE_value)
  moreover have "serverDataHandler [] (0xAA # 0xAA # replicate 3607 0) =
      serverDataHandler [0xAA] (0xAA # replicate 3607 0)"
    by (simp add: serverDataHandler_def)
  ultimately show ?thesis
    by (simp add: xorChecksum_Cons_zeros serverDataHandler_shifted
        extractAndProcessPacket_shifted PACKET_SIZE_value)
qed

text \<open>
  C4, at a failing input. A valid all-zero frame fed alone is sent as it is. When one junk
  byte 0xAA arrives as a chunk of its own before that frame, the first server of
  \<^verbatim>\<open>src/unnamed/part_000\<close> sends a frame read one byte early (depth index 43520) and
  never sends the valid frame.
\<close>

theorem serverDataHandler_junk_header_loses_frame:
  "serverDataHandler [] (0xAA # replicate 3607 0) =
     ([Sent \<lparr>f_depthIndex = 0, f_tempScaled = 0, f_vDrvScaled = 0, f_samples = replicate 1800 0\<rparr>],
      []) \<and>
   serverDataHandler [] [0xAA] = ([], [0xAA]) \<and>
   serverDataHandler [0xAA] (0xAA # replicate 3607 0) =
     ([ChecksumWarning 0 0xAA,
       Sent \<lparr>f_depthIndex = 43520, f_tempScaled = 0, f_vDrvScaled = 0,
             f_samples = replicate 1800 0\<rparr>],
      [0]) \<and>
   Sent \<lparr>f_depthIndex = 0, f_tempScaled = 0, f_vDrvScaled = 0, f_samples = replicate 1800 0\<rparr>
     \<notin> set (fst (serverDataHandler [0xAA] (0xAA # replicate 3607 0)))"
proof -
  have "serverDataHandler [] [0xAA] = ([], [0xAA])"
    by (simp add: serverDataHandler_def packetLoop_short PACKET_SIZE_value)
  then show ?thesis
    by (simp add: serverDataHandler_zero_frame serverDataHandler_shifted)
qed

section \<open>Chunking\<close>

text \<open>
  What the loop emits does not depend on how the bytes are cut into chunks: feeding the
  chunks one by one emits what feeding their concatenation at once emits. The buffers
  kept can differ in junk bytes before the first header only.
\<close>

lemma stripJunk_idem: "stripJunk (stripJunk buffer) = stripJunk buffer"
  by (simp add: stripJunk_def dropWhile_idem)

lemma stripJunk_no_header: "HEADER_BYTE \<notin> set buffer \<Longrightarrow> stripJunk (buffer @ data) = stripJunk data"
  by (auto simp: stripJunk_def dropWhile_append)

lemma stripJunk_header: "HEADER_BYTE \<in> set buffer \<Longrightarrow> stripJunk (buffer @ data) = stripJunk buffer @ data"
  by (auto simp: stripJunk_def dropWhile_append)

lemma stripJunk_indexOf: "indexOf buffer HEADER_BYTE = Some h \<Longrightarrow> stripJunk buffer = drop h buffer"
  by (simp add: stripJunk_def indexOf_Some_drop)

lemma stripJunk_none: "indexOf buffer HEADER_BYTE = None \<Longrightarrow> stripJunk buffer = []"
  by (auto simp: stripJunk_def indexOf_None_iff)

lemma indexOf_stripJunk:
  "stripJunk buffer \<noteq> [] \<Longrightarrow> indexOf (stripJunk buffer) HEADER_BYTE = Some 0"
  unfolding stripJunk_def
  by (cases "dropWhile (\<lambda>b. b \<noteq> HEADER_BYTE) buffer")
    (auto dest: arg_cong [where f = hd] simp: hd_dropWhile dest!: dropWhile_eq_Cons_conv [THEN iffD1])

lemma length_stripJunk: "length (stripJunk buffer) \<le> length buffer"
  by (simp add: stripJunk_def length_dropWhile_le)

text \<open>The result of the loop with the junk before the first header removed from the buffer kept.\<close>

lemma packetLoop_stripJunk:
  "(case packetLoop process s buffer of (e, s', b) \<Rightarrow> (e, s', stripJunk b)) =
   (case packetLoop process s (stripJunk buffer) of (e, s', b) \<Rightarrow> (e, s', stripJunk b))"
proof (cases "PACKET_SIZE \<le> length buffer")
  case False
  with length_stripJunk [of buffer] have "length (stripJunk buffer) < PACKET_SIZE" by simp
  with False show ?thesis by (simp add: packetLoop_short stripJunk_idem)
next
  case long: True
  show ?thesis
  proof (cases "indexOf buffer HEADER_BYTE")
    case None
    with long show ?thesis
      by (simp add: packetLoop_no_header indexOf_None_iff [THEN iffD1] stripJunk_none
          packetLoop_short PACKET_SIZE_value)
  next
    case (Some h)
    note st = stripJunk_indexOf [OF Some]
    from indexOf_Some_drop [OF Some] have "h < length buffer" by blast
    then have "drop h buffer \<noteq> []" by simp
    with st indexOf_stripJunk [of buffer]
    have i0: "indexOf (drop h buffer) HEADER_BYTE = Some 0" by simp
    show ?thesis
    proof (cases "PACKET_SIZE \<le> length (drop h buffer)")
      case False
      with long Some show ?thesis
        by (simp add: packetLoop_partial st packetLoop_short stripJunk_idem [of buffer, unfolded st])
    next
      case True
      from packetLoop_packet [OF long Some True, of process s]
        packetLoop_packet [OF True i0, of process s] True
      show ?thesis by (simp add: st)
    qed
  qed
qed


lemma indexOf_append_Some:
  "indexOf xs v = Some h \<Longrightarrow> indexOf (xs @ ys) v = Some h"
  by (induction xs arbitrary: h) (auto split: if_splits)

lemma packetLoop_append:
  "(case packetLoop process s (buffer @ data) of (e, s', b) \<Rightarrow> (e, s', stripJunk b)) =
   (case packetLoop process s buffer of
      (e1, s1, b1) \<Rightarrow>
        (case packetLoop process s1 (b1 @ data) of
           (e2, s2, b2) \<Rightarrow> (e1 @ e2, s2, stripJunk b2)))"
proof (induction "length buffer" arbitrary: buffer s rule: less_induct)
  case less
  show ?case
  proof (cases "PACKET_SIZE \<le> length buffer")
    case False
    then show ?thesis by (simp add: packetLoop_short split: prod.splits)
  next
    case long: True
    then have long': "PACKET_SIZE \<le> length (buffer @ data)" by simp
    show ?thesis
    proof (cases "indexOf buffer HEADER_BYTE")
      case None
      then have nh: "HEADER_BYTE \<notin> set buffer" by (simp add: indexOf_None_iff)
      have "(case packetLoop process s (buffer @ data) of (e, s', b) \<Rightarrow> (e, s', stripJunk b)) =
            (case packetLoop process s (stripJunk data) of (e, s', b) \<Rightarrow> (e, s', stripJunk b))"
        by (simp only: packetLoop_stripJunk [of process s "buffer @ data"] stripJunk_no_header [OF nh])
      also have "\<dots> = (case packetLoop process s data of (e, s', b) \<Rightarrow> (e, s', stripJunk b))"
        by (simp only: packetLoop_stripJunk [of process s data])
      finally show ?thesis
        by (simp add: packetLoop_no_header [OF long nh])
    next
      case (Some h)
      then have hd: "HEADER_BYTE \<in> set buffer"
        using indexOf_None_iff [of buffer HEADER_BYTE] by auto
      note st = stripJunk_indexOf [OF Some]
      note Some' = indexOf_append_Some [OF Some, of data]
      from indexOf_Some_drop [OF Some] have hlt: "h < length buffer" by blast
      then have dr: "drop h (buffer @ data) = drop h buffer @ data" by simp
      show ?thesis
      proof (cases "PACKET_SIZE \<le> length (drop h buffer)")
        case False
        have "(case packetLoop process s (buffer @ data) of (e, s', b) \<Rightarrow> (e, s', stripJunk b)) =
            (case packetLoop process s (stripJunk (buffer @ data)) of (e, s', b) \<Rightarrow> (e, s', stripJunk b))"
          by (simp only: packetLoop_stripJunk [of process s "buffer @ data"])
        also have "stripJunk (buffer @ data) = drop h buffer @ data"
          by (simp add: stripJunk_header [OF hd] st)
        finally show ?thesis
          using False long Some by (simp add: packetLoop_partial)
      next
        case True
        then have True': "PACKET_SIZE \<le> length (drop h (buffer @ data))" unfolding dr by simp
        have tk: "take PACKET_SIZE (drop h (buffer @ data)) = take PACKET_SIZE (drop h buffer)"
          using True unfolding dr by simp
        have dd: "drop PACKET_SIZE (drop h (buffer @ data)) = drop PACKET_SIZE (drop h buffer) @ data"
          using True unfolding dr by simp
        have "length (drop PACKET_SIZE (drop h buffer)) < length buffer"
          using True by (simp add: PACKET_SIZE_value)
        note IH = less [OF this]
        obtain em s1 where p: "process s (take PACKET_SIZE (drop h buffer)) = (em, s1)"
          by (cases "process s (take PACKET_SIZE (drop h buffer))")
        show ?thesis
          unfolding packetLoop_packet [OF long' Some' True'] packetLoop_packet [OF long Some True]
            tk dd p prod.case
          using IH [of s1]
          by (simp split: prod.splits)
      qed
    qed
  qed
qed


lemma serverDataHandler_append:
  "(case serverDataHandler buffer (data @ rest) of (e, b) \<Rightarrow> (e, stripJunk b)) =
   (case serverDataHandler buffer data of
      (e1, b1) \<Rightarrow> (case serverDataHandler b1 rest of (e2, b2) \<Rightarrow> (e1 @ e2, stripJunk b2)))"
  using packetLoop_append [of "\<lambda>s packet. (handlePacket packet, s)" "()" "buffer @ data" rest]
  by (simp add: serverDataHandler_def split: prod.splits)

lemma feedChunks_concat:
  "length buffer < PACKET_SIZE \<Longrightarrow>
     (case feedChunks buffer chunks of (e, b) \<Rightarrow> (e, stripJunk b)) =
     (case serverDataHandler buffer (concat chunks) of (e, b) \<Rightarrow> (e, stripJunk b))"
proof (induction chunks arbitrary: buffer)
  case Nil
  then show ?case
    by (simp add: serverDataHandler_def packetLoop_short)
next
  case (Cons data chunks)
  obtain e1 b1 where h: "serverDataHandler buffer data = (e1, b1)"
    by (cases "serverDataHandler buffer data")
  have "length (snd (serverDataHandler buffer data)) < PACKET_SIZE"
    unfolding serverDataHandler_loop snd_conv by (rule packetLoop_buffer_bound)
  with h have "length b1 < PACKET_SIZE" by simp
  from Cons.IH [OF this] serverDataHandler_append [of buffer data "concat chunks"] h
  show ?case
    by (simp split: prod.splits)
qed

lemma feedChunks_chunking_invariant:
  "fst (feedChunks [] chunks) = fst (serverDataHandler [] (concat chunks))"
  using feedChunks_concat [of "[]" chunks]
  by (simp add: PACKET_SIZE_value split: prod.splits)

text \<open>
  Packets of PACKET_SIZE bytes that start with the header byte, each after junk that holds
  no header byte, are all handled, in order and whole.
\<close>

lemma serverDataHandler_junk_then_frame:
  assumes "HEADER_BYTE \<notin> set junk" "length packet = PACKET_SIZE" "hd packet = HEADER_BYTE"
  shows "fst (serverDataHandler [] (junk @ packet @ rest)) =
           handlePacket packet @ fst (serverDataHandler [] rest)"
proof -
  let ?p = "\<lambda>s packet. (handlePacket packet, s) :: event list \<times> unit"
  from assms(2,3) obtain tl where pk: "packet = HEADER_BYTE # tl"
    by (cases packet) (auto simp: PACKET_SIZE_value)
  have st: "stripJunk (junk @ packet @ rest) = packet @ rest"
    by (simp add: stripJunk_no_header [OF assms(1)]) (simp add: stripJunk_def pk)
  have len: "PACKET_SIZE \<le> length (HEADER_BYTE # tl @ rest)"
    using assms(2) by (simp add: pk)
  have "fst (packetLoop ?p () (junk @ packet @ rest)) = fst (packetLoop ?p () (packet @ rest))"
    using packetLoop_stripJunk [of ?p "()" "junk @ packet @ rest"]
    unfolding st by (simp split: prod.splits)
  also have "\<dots> = handlePacket packet @ fst (packetLoop ?p () rest)"
  proof -
    have e: "packet @ rest = HEADER_BYTE # tl @ rest" by (simp add: pk)
    have tk: "take PACKET_SIZE (HEADER_BYTE # tl @ rest) = packet"
      using assms(2) unfolding e [symmetric] by simp
    have dr: "drop PACKET_SIZE (HEADER_BYTE # tl @ rest) = rest"
      using assms(2) unfolding e [symmetric] by simp
    show ?thesis
      unfolding e packetLoop_header_first [OF len, of ?p "()"] tk dr
      by (simp split: prod.splits)
  qed
  finally show ?thesis
    by (simp add: serverDataHandler_loop)
qed

lemma serverDataHandler_frames_between_junk:
  assumes "\<And>junk packet. (junk, packet) \<in> set pairs \<Longrightarrow>
             HEADER_BYTE \<notin> set junk \<and> length packet = PACKET_SIZE \<and> hd packet = HEADER_BYTE"
  shows "fst (serverDataHandler [] (concat (map (\<lambda>(junk, packet). junk @ packet) pairs))) =
           concat (map (\<lambda>(junk, packet). handlePacket packet) pairs)"
  using assms
proof (induction pairs)
  case Nil
  show ?case
    by (simp add: serverDataHandler_def packetLoop_short PACKET_SIZE_value)
next
  case (Cons jp pairs)
  obtain junk packet where jp: "jp = (junk, packet)" by (cases jp)
  from Cons.prems [of junk packet] jp
  have a: "HEADER_BYTE \<notin> set junk" "length packet = PACKET_SIZE" "hd packet = HEADER_BYTE"
    by simp_all
  have IH: "fst (serverDataHandler [] (concat (map (\<lambda>(junk, packet). junk @ packet) pairs))) =
           concat (map (\<lambda>(junk, packet). handlePacket packet) pairs)"
    by (rule Cons.IH) (use Cons.prems in auto)
  from serverDataHandler_junk_then_frame [OF a, of "concat (map (\<lambda>(junk, packet). junk @ packet) pairs)"]
  show ?case by (simp add: jp IH)
qed

section \<open>The quality check comes after smoothing\<close>

lemma processDataPacket_zero_frame:
  "processDataPacket None (replicate 1800 0) = (Skipped, Some (- 0.2178))"
proof -
  have "0 < (1800::nat)" by simp
  note z = findPrimaryReflection_all_zero [OF this]
  show ?thesis
    by (simp add: z processDataPacket_unfold)
      (simp add: applyExponentialSmoothing_def SAMPLE_RESOLUTION_def)
qed

lemma serialBufferHandler_zero_frame:
  "serialBufferHandler (None, []) (0xAA # replicate 3607 0) =
     ([(replicate 1800 0, Skipped)], Some (- 0.2178), [])"
proof -
  have p: "sliceBuffer (take PACKET_SIZE (HEADER_BYTE # replicate 3607 0)) 1 (PACKET_SIZE - 1) =
      replicate 3606 0"
    by (simp add: sliceBuffer_def PACKET_SIZE_value)
  have u: "unpackSamples (replicate 3600 0) = replicate 1800 0"
    using unpackSamples_zeros [of 3600] by (simp add: NUM_SAMPLES_def)
  have l: "PACKET_SIZE \<le> length (HEADER_BYTE # replicate 3607 0)"
    by (simp add: PACKET_SIZE_value)
  have d: "drop PACKET_SIZE (HEADER_BYTE # replicate 3607 0) = []"
    by (simp add: PACKET_SIZE_value)
  have h: "(0xAA :: byte) = HEADER_BYTE" by (simp add: HEADER_BYTE_def)
  show ?thesis
    unfolding serialBufferHandler_def prod.case append_Nil h packetLoop_header_first [OF l] p d Let_def
    by (simp add: u processDataPacket_zero_frame packetLoop_short PACKET_SIZE_value)
qed

text \<open>
  C1 (as amended). \<^verbatim>\<open>processDataPacket\<close> smooths every frame before it looks at
  the peak value: the smoothing state after a frame is the state that
  \<^verbatim>\<open>applyExponentialSmoothing\<close> leaves for the frame's raw distance, whatever the
  peak value, and it is never \<^verbatim>\<open>null\<close>. A frame whose peak value is below 50 is
  skipped after that (nothing is handed on); any other frame is handed on with the
  smoothed distance.
\<close>

theorem processDataPacket_smooths_before_check:
  "snd (processDataPacket prev samples) =
     snd (applyExponentialSmoothing prev (r_distance (findPrimaryReflection samples))) \<and>
   snd (processDataPacket prev samples) \<noteq> None \<and>
   (r_value (findPrimaryReflection samples) < 50 \<longrightarrow>
      fst (processDataPacket prev samples) = Skipped) \<and>
   (\<not> r_value (findPrimaryReflection samples) < 50 \<longrightarrow>
      fst (processDataPacket prev samples) =
        Passed (findPrimaryReflection samples)
          (fst (applyExponentialSmoothing prev (r_distance (findPrimaryReflection samples)))))"
  by (simp add: processDataPacket_unfold applyExponentialSmoothing_state)

text \<open>
  Counterexample to C1 as stated: the frame of 1800 samples of value 0 has peak value
  0 < 50, yet processing it changes the smoothing state, from \<^verbatim>\<open>null\<close> and from 100.
  On the wire: the 3608 bytes of that frame (header, zero payload, checksum 0), received by
  \<^verbatim>\<open>serialBufferHandler\<close> in its initial state, are skipped and leave
  \<^verbatim>\<open>lastSmoothedDistance\<close> at -0.2178.
\<close>

theorem processDataPacket_weak_frame_counterexample:
  "r_value (findPrimaryReflection (replicate 1800 0)) < 50 \<and>
   snd (processDataPacket None (replicate 1800 0)) \<noteq> None \<and>
   snd (processDataPacket (Some 100) (replicate 1800 0)) \<noteq> Some 100 \<and>
   serialBufferHandler (None, []) (0xAA # replicate 3607 0) =
     ([(replicate 1800 0, Skipped)], Some (- 0.2178), [])"
proof -
  have "0 < (1800::nat)" by simp
  note z = findPrimaryReflection_all_zero [OF this]
  show ?thesis
    by (simp add: z processDataPacket_unfold serialBufferHandler_zero_frame)
      (simp add: applyExponentialSmoothing_def Let_def SAMPLE_RESOLUTION_def EMA_ALPHA_def)
qed

text \<open>
  Witness for C1: a weak echo of value 30 at index 700 (raw distance 152.46 cm) is skipped,
  and moves the smoothed distance from 100 to 105.246.
\<close>

theorem processDataPacket_smooths_before_check_witness:
  "r_value (findPrimaryReflection ((replicate 1800 0)[700 := 30])) < 50 \<and>
   processDataPacket (Some 100) ((replicate 1800 0)[700 := 30]) = (Skipped, Some 105.246)"
proof -
  have "0 < (700::nat)" "700 + 100 < (1800::nat)" "0 < (30::nat)" by simp_all
  note p = findPrimaryReflection_single_peak [OF this]
  note t = processDataPacket_smooths_before_check [of "Some 100" "(replicate 1800 0)[700 := 30]"]
  have v: "r_value (findPrimaryReflection ((replicate 1800 0)[700 := 30])) < 50"
    by (simp add: p)
  have "snd (applyExponentialSmoothing (Some 100)
          (r_distance (findPrimaryReflection ((replicate 1800 0)[700 := 30])))) = Some 105.246"
    by (simp add: p applyExponentialSmoothing_def Let_def SAMPLE_RESOLUTION_def EMA_ALPHA_def)
  with t v show ?thesis
    by (simp add: prod_eq_iff)
qed

end
